theory Spec2Isabelle
  imports Complex_Main "HOL-Library.Word"
begin

section \<open>The data model of engine.cpp\<close>

text \<open>
  The fixed-width integers of the source are words: \<open>uint16_t\<close>, \<open>uint32_t\<close> and
  \<open>uint64_t\<close> are read with \<open>unat\<close>/\<open>uint\<close>; the two \<open>atomic<int>\<close> side counters are
  32-bit words read with \<open>sint\<close> (arithmetic on a \<open>std::atomic<int>\<close> wraps in two's
  complement). A \<open>double\<close> price is the real number it denotes: the engine only stores,
  compares and prints prices, and comparison of finite doubles is the order of the reals.
\<close>

type_synonym uint16 = "16 word"
type_synonym uint32 = "32 word"
type_synonym uint64 = "64 word"

definition MAX_ORDERS_PER_SIDE :: int where
  "MAX_ORDERS_PER_SIDE = 1024"

definition NUM_TICKERS :: int where
  "NUM_TICKERS = 1024"

datatype error = OutOfBounds | NullPointer

record Order =
  isBuy :: bool
  tickerIndex :: uint32
  quantity :: uint32
  price :: real
  timestamp :: uint64

text \<open>
  The constructor \<open>Order(bool type, uint32_t index, uint32_t quant, double p, uint32_t time)\<close>.
  Its last parameter is 32 bits wide, the field it initialises 64 bits.
\<close>

definition new_Order :: "bool \<Rightarrow> uint32 \<Rightarrow> uint32 \<Rightarrow> real \<Rightarrow> uint32 \<Rightarrow> Order" where
  "new_Order type index quant p time =
     \<lparr>isBuy = type, tickerIndex = index, quantity = quant, price = p, timestamp = ucast time\<rparr>"

text \<open>
  \<open>struct TickerOrderBook\<close>. Each array of \<open>Order*\<close> is a map from the slot index to the
  order the slot points to, \<open>None\<close> for \<open>nullptr\<close>. Every order is allocated by its own
  \<open>new\<close> and its pointer is stored in exactly one slot, so a pointer to an order is the index
  of its slot on its side and the order's fields live in the slot. Only the indices below
  \<open>MAX_ORDERS_PER_SIDE\<close> exist: the operations below check every access and fail with
  \<open>OutOfBounds\<close> where the source would index outside the array. That is undefined
  behaviour of the source: \<open>OutOfBounds\<close> is not a value it returns, and the model says
  nothing about what the source does from there.
\<close>

record TickerOrderBook =
  buyOrders :: "nat \<Rightarrow> Order option"
  sellOrders :: "nat \<Rightarrow> Order option"
  buyCount :: "32 word"
  sellCount :: "32 word"

definition TickerOrderBook_init :: TickerOrderBook where
  "TickerOrderBook_init =
     \<lparr>buyOrders = (\<lambda>i. None), sellOrders = (\<lambda>i. None), buyCount = 0, sellCount = 0\<rparr>"

text \<open>The globals \<open>globalTimestamp\<close> and \<open>tickers[NUM_TICKERS]\<close>.\<close>

record engine =
  globalTimestamp :: uint64
  tickers :: "nat \<Rightarrow> TickerOrderBook"

definition engine_init :: engine where
  "engine_init = \<lparr>globalTimestamp = 0, tickers = (\<lambda>t. TickerOrderBook_init)\<rparr>"

text \<open>One line of the trade report written to \<open>cout\<close>: ticker, shares, price.\<close>

record trade =
  trade_ticker :: uint16
  trade_qty :: uint32
  trade_price :: real

section \<open>addOrder\<close>

text \<open>
  \<open>fetch_add\<close> returns the old value and stores the incremented one. The sequence number is
  drawn before the range check of the ticker. A claimed index below the capacity is written
  to; the source does not test it against zero, so a negative index (a wrapped counter) is a
  write in front of the array.
\<close>

definition addOrder :: "bool \<Rightarrow> uint16 \<Rightarrow> uint32 \<Rightarrow> real \<Rightarrow> engine \<Rightarrow> error + engine" where
  "addOrder type tickerSymbol quant p s =
     (let ts = globalTimestamp s;
          s1 = s\<lparr>globalTimestamp := globalTimestamp s + 1\<rparr>
      in if NUM_TICKERS \<le> uint tickerSymbol then Inr s1
         else
           let t = unat tickerSymbol;
               book = tickers s1 t
           in if type then
                (let index = sint (buyCount book);
                     book1 = book\<lparr>buyCount := buyCount book + 1\<rparr>
                 in if index < MAX_ORDERS_PER_SIDE then
                      (if index < 0 then Inl OutOfBounds
                       else Inr (s1\<lparr>tickers := (tickers s1)(t := book1\<lparr>buyOrders :=
                              (buyOrders book1)(nat index \<mapsto>
                                 new_Order type (ucast tickerSymbol) quant p (ucast ts))\<rparr>)\<rparr>))
                    else Inr (s1\<lparr>tickers := (tickers s1)(t := book1)\<rparr>))
              else
                (let index = sint (sellCount book);
                     book1 = book\<lparr>sellCount := sellCount book + 1\<rparr>
                 in if index < MAX_ORDERS_PER_SIDE then
                      (if index < 0 then Inl OutOfBounds
                       else Inr (s1\<lparr>tickers := (tickers s1)(t := book1\<lparr>sellOrders :=
                              (sellOrders book1)(nat index \<mapsto>
                                 new_Order type (ucast tickerSymbol) quant p (ucast ts))\<rparr>)\<rparr>))
                    else Inr (s1\<lparr>tickers := (tickers s1)(t := book1)\<rparr>)))"

section \<open>matchOrdersForTicker\<close>

text \<open>
  The two scan loops \<open>for (int i = 0; i < count; i++)\<close>, with the best pointer and the best
  price so far as accumulators. Reading slot \<open>i\<close> with \<open>i \<ge> MAX_ORDERS_PER_SIDE\<close> is a read
  behind the array.
\<close>

function scanBuy :: "TickerOrderBook \<Rightarrow> int \<Rightarrow> nat \<Rightarrow> nat option \<Rightarrow> real \<Rightarrow> error + nat option \<times> real" where
  "scanBuy book n i bestBuy highestBuyPrice =
     (if int i < n then
        (if MAX_ORDERS_PER_SIDE \<le> int i then Inl OutOfBounds
         else case buyOrders book i of
                None \<Rightarrow> scanBuy book n (i + 1) bestBuy highestBuyPrice
              | Some ord \<Rightarrow>
                  if 0 < quantity ord \<and> highestBuyPrice < price ord
                  then scanBuy book n (i + 1) (Some i) (price ord)
                  else scanBuy book n (i + 1) bestBuy highestBuyPrice)
      else Inr (bestBuy, highestBuyPrice))"
  by pat_completeness auto
termination
  by (relation "measure (\<lambda>(book, n, i, b, h). nat (n - int i))") auto

function scanSell :: "TickerOrderBook \<Rightarrow> int \<Rightarrow> nat \<Rightarrow> nat option \<Rightarrow> real \<Rightarrow> error + nat option \<times> real" where
  "scanSell book n i bestSell lowestSellPrice =
     (if int i < n then
        (if MAX_ORDERS_PER_SIDE \<le> int i then Inl OutOfBounds
         else case sellOrders book i of
                None \<Rightarrow> scanSell book n (i + 1) bestSell lowestSellPrice
              | Some ord \<Rightarrow>
                  if 0 < quantity ord \<and> price ord < lowestSellPrice
                  then scanSell book n (i + 1) (Some i) (price ord)
                  else scanSell book n (i + 1) bestSell lowestSellPrice)
      else Inr (bestSell, lowestSellPrice))"
  by pat_completeness auto
termination
  by (relation "measure (\<lambda>(book, n, i, b, h). nat (n - int i))") auto

text \<open>Dereferencing a pointer held in a slot.\<close>

definition deref :: "(nat \<Rightarrow> Order option) \<Rightarrow> nat \<Rightarrow> error + Order" where
  "deref slots i = (case slots i of None \<Rightarrow> Inl NullPointer | Some ord \<Rightarrow> Inr ord)"

text \<open>
  One iteration of the \<open>while (true)\<close> loop: \<open>Inr None\<close> is the \<open>break\<close>, \<open>Inr (Some (book', t))\<close>
  a cross that leaves the book \<open>book'\<close> and prints the trade \<open>t\<close>.
\<close>

definition matchIteration :: "uint16 \<Rightarrow> TickerOrderBook \<Rightarrow> error + (TickerOrderBook \<times> trade) option" where
  "matchIteration ticker book =
     (case scanBuy book (sint (buyCount book)) 0 None (- 1) of
        Inl e \<Rightarrow> Inl e
      | Inr (bestBuy, highestBuyPrice) \<Rightarrow>
     (case scanSell book (sint (sellCount book)) 0 None 1000000000 of
        Inl e \<Rightarrow> Inl e
      | Inr (bestSell, lowestSellPrice) \<Rightarrow>
     (case bestBuy of None \<Rightarrow> Inr None | Some b \<Rightarrow>
     (case bestSell of None \<Rightarrow> Inr None | Some a \<Rightarrow>
     (case deref (buyOrders book) b of Inl e \<Rightarrow> Inl e | Inr bo \<Rightarrow>
     (case deref (sellOrders book) a of Inl e \<Rightarrow> Inl e | Inr so \<Rightarrow>
        if price bo < price so then Inr None
        else
          let buyQty = quantity bo;
              sellQty = quantity so;
              matchQty = (if buyQty < sellQty then buyQty else sellQty);
              book' = book\<lparr>buyOrders := (buyOrders book)(b \<mapsto> bo\<lparr>quantity := buyQty - matchQty\<rparr>),
                          sellOrders := (sellOrders book)(a \<mapsto> so\<lparr>quantity := sellQty - matchQty\<rparr>)\<rparr>
          in Inr (Some (book', \<lparr>trade_ticker = ticker, trade_qty = matchQty,
                                 trade_price = price so\<rparr>))))))))"

text \<open>
  The loop itself. It has no bound in the source, so it is a partial function: \<open>None\<close> is
  a loop that never leaves. The trades printed so far are accumulated in \<open>out\<close>.
\<close>

partial_function (option) matchLoop ::
  "uint16 \<Rightarrow> TickerOrderBook \<Rightarrow> trade list \<Rightarrow> (error + TickerOrderBook \<times> trade list) option" where
  "matchLoop ticker book out =
     (case matchIteration ticker book of
        Inl e \<Rightarrow> Some (Inl e)
      | Inr None \<Rightarrow> Some (Inr (book, out))
      | Inr (Some (book', t)) \<Rightarrow> matchLoop ticker book' (out @ [t]))"

text \<open>\<open>TickerOrderBook &book = tickers[tickerIndex]\<close> is not range-checked in the source.\<close>

definition matchOrdersForTicker :: "uint16 \<Rightarrow> engine \<Rightarrow> (error + engine \<times> trade list) option" where
  "matchOrdersForTicker ticker s =
     (if NUM_TICKERS \<le> uint ticker then Some (Inl OutOfBounds)
      else case matchLoop ticker (tickers s (unat ticker)) [] of
             None \<Rightarrow> None
           | Some (Inl e) \<Rightarrow> Some (Inl e)
           | Some (Inr (book', out)) \<Rightarrow>
               Some (Inr (s\<lparr>tickers := (tickers s)(unat ticker := book')\<rparr>, out)))"

section \<open>Sequences of calls\<close>

text \<open>
  The simulation calls \<open>addOrder\<close> from one thread and \<open>matchOrdersForTicker\<close> (through
  \<open>matchOrder\<close>) from another. With a single matching activity and no submission during a
  pass, a run is a sequence of whole calls; it stops at the first call that leaves the
  arrays. The trades printed are collected in order.
\<close>

datatype op = Submit bool uint16 uint32 real | Match uint16

fun run :: "op list \<Rightarrow> engine \<Rightarrow> trade list \<Rightarrow> (error + engine \<times> trade list) option" where
  "run [] s out = Some (Inr (s, out))"
| "run (Submit type tickerSymbol quant p # ops) s out =
     (case addOrder type tickerSymbol quant p s of
        Inl e \<Rightarrow> Some (Inl e)
      | Inr s' \<Rightarrow> run ops s' out)"
| "run (Match ticker # ops) s out =
     (case matchOrdersForTicker ticker s of
        None \<Rightarrow> None
      | Some (Inl e) \<Rightarrow> Some (Inl e)
      | Some (Inr (s', tr)) \<Rightarrow> run ops s' (out @ tr))"

section \<open>Notions used in the statements\<close>

text \<open>A slot is eligible when it holds an order with remaining quantity above zero.\<close>

definition eligible :: "Order option \<Rightarrow> bool" where
  "eligible x = (case x of None \<Rightarrow> False | Some ord \<Rightarrow> 0 < quantity ord)"

text \<open>The number of eligible slots of a book, over both arrays.\<close>

definition live :: "TickerOrderBook \<Rightarrow> nat" where
  "live book =
     length (filter (\<lambda>i. eligible (buyOrders book i)) [0..<1024]) +
     length (filter (\<lambda>i. eligible (sellOrders book i)) [0..<1024])"

text \<open>Slot \<open>k\<close> of an array holds the order \<open>ord\<close>, and \<open>ord\<close> has quantity left.\<close>

definition holds :: "(nat \<Rightarrow> Order option) \<Rightarrow> nat \<Rightarrow> Order \<Rightarrow> bool" where
  "holds slots k ord = (slots k = Some ord \<and> 0 < quantity ord)"

text \<open>The array and the counter of one side of a book: \<open>True\<close> is the buy side.\<close>

definition sideOrders :: "bool \<Rightarrow> TickerOrderBook \<Rightarrow> nat \<Rightarrow> Order option" where
  "sideOrders type book = (if type then buyOrders book else sellOrders book)"

definition sideCount :: "bool \<Rightarrow> TickerOrderBook \<Rightarrow> 32 word" where
  "sideCount type book = (if type then buyCount book else sellCount book)"

text \<open>A sequence of submissions to one side of one instrument: quantity and price of each.\<close>

definition submits :: "bool \<Rightarrow> uint16 \<Rightarrow> (uint32 \<times> real) list \<Rightarrow> op list" where
  "submits type tickerSymbol xs = map (\<lambda>(quant, p). Submit type tickerSymbol quant p) xs"

text \<open>
  A book is crossed when a buy order and a sell order in claimed slots, both with quantity
  left, have the buy price at or above the sell price. Its prices are in range when every
  buy order with quantity left is priced above the initial value of \<open>highestBuyPrice\<close> and
  every such sell order below the initial value of \<open>lowestSellPrice\<close>.
\<close>

definition crossed :: "TickerOrderBook \<Rightarrow> bool" where
  "crossed book =
     (\<exists>i j bo so. int i < sint (buyCount book) \<and> int j < sint (sellCount book) \<and>
        holds (buyOrders book) i bo \<and> holds (sellOrders book) j so \<and> price so \<le> price bo)"

definition prices_in_range :: "TickerOrderBook \<Rightarrow> bool" where
  "prices_in_range book =
     (\<forall>k ord. (holds (buyOrders book) k ord \<longrightarrow> - 1 < price ord) \<and>
              (holds (sellOrders book) k ord \<longrightarrow> price ord < 1000000000))"

text \<open>
  A slot evolves when the order it held is still there, with the side, instrument, price
  and sequence number it had and a quantity that is not above the old one (as unsigned
  numbers, so a decrement that wrapped below zero would break it). An engine evolves when
  every slot of every book does; a book evolves when, moreover, its counters and the set of
  its occupied slots stay. In an engine reached from the start every occupied slot is a
  claimed one, unless the counter of its side has wrapped.
\<close>

definition slot_evolves :: "Order option \<Rightarrow> Order option \<Rightarrow> bool" where
  "slot_evolves x y =
     (case x of None \<Rightarrow> True
      | Some ord \<Rightarrow>
          (\<exists>ord'. y = Some ord' \<and> isBuy ord' = isBuy ord \<and> tickerIndex ord' = tickerIndex ord \<and>
             price ord' = price ord \<and> timestamp ord' = timestamp ord \<and>
             quantity ord' \<le> quantity ord))"

definition evolves :: "engine \<Rightarrow> engine \<Rightarrow> bool" where
  "evolves s s' =
     (\<forall>t type i. slot_evolves (sideOrders type (tickers s t) i) (sideOrders type (tickers s' t) i))"

definition claimed_only :: "engine \<Rightarrow> bool" where
  "claimed_only s =
     (\<forall>t type i. sideOrders type (tickers s t) i \<noteq> None \<longrightarrow>
        sint (sideCount type (tickers s t)) < 0 \<or> int i < sint (sideCount type (tickers s t)))"

definition book_evolves :: "TickerOrderBook \<Rightarrow> TickerOrderBook \<Rightarrow> bool" where
  "book_evolves b b' =
     (buyCount b' = buyCount b \<and> sellCount b' = sellCount b \<and>
      (\<forall>i. slot_evolves (buyOrders b i) (buyOrders b' i) \<and>
           slot_evolves (sellOrders b i) (sellOrders b' i) \<and>
           (buyOrders b' i = None \<longleftrightarrow> buyOrders b i = None) \<and>
           (sellOrders b' i = None \<longleftrightarrow> sellOrders b i = None)))"

text \<open>
  The book and the trade line after the orders \<open>bo\<close> in buy slot \<open>b\<close> and \<open>so\<close> in sell slot
  \<open>a\<close> are crossed.
\<close>

definition cross :: "uint16 \<Rightarrow> TickerOrderBook \<Rightarrow> nat \<Rightarrow> Order \<Rightarrow> nat \<Rightarrow> Order \<Rightarrow> TickerOrderBook \<times> trade" where
  "cross ticker book b bo a so =
     (book\<lparr>buyOrders := (buyOrders book)(b \<mapsto> bo\<lparr>quantity := quantity bo - min (quantity bo) (quantity so)\<rparr>),
           sellOrders := (sellOrders book)(a \<mapsto> so\<lparr>quantity := quantity so - min (quantity bo) (quantity so)\<rparr>)\<rparr>,
      \<lparr>trade_ticker = ticker, trade_qty = min (quantity bo) (quantity so), trade_price = price so\<rparr>)"

text \<open>
  The book of instrument 3 after Buy(30 at 100.0), Sell(10 at 90.0) and Sell(10 at 95.0), the
  book after its first cross with the trade line of that cross, and the engine holding it.
\<close>

definition scenarioC_book :: TickerOrderBook where
  "scenarioC_book =
     \<lparr>buyOrders = [0 \<mapsto> new_Order True 3 30 100 0],
      sellOrders = [0 \<mapsto> new_Order False 3 10 90 1, 1 \<mapsto> new_Order False 3 10 95 2],
      buyCount = 1, sellCount = 2\<rparr>"

definition scenarioC_book1 :: TickerOrderBook where
  "scenarioC_book1 =
     scenarioC_book\<lparr>buyOrders := (buyOrders scenarioC_book)(0 \<mapsto> new_Order True 3 20 100 0),
                    sellOrders := (sellOrders scenarioC_book)(0 \<mapsto> new_Order False 3 0 90 1)\<rparr>"

definition scenarioC_trade1 :: trade where
  "scenarioC_trade1 = \<lparr>trade_ticker = 3, trade_qty = 10, trade_price = 90\<rparr>"

definition scenarioC :: engine where
  "scenarioC = \<lparr>globalTimestamp = 3, tickers = (\<lambda>t. TickerOrderBook_init)(3 := scenarioC_book)\<rparr>"

declare matchLoop.simps [code]
declare scanBuy.simps [simp del]
declare scanSell.simps [simp del]

text \<open>The equations that evaluate a run on given calls.\<close>

lemmas eval_defs = addOrder_def engine_init_def TickerOrderBook_init_def NUM_TICKERS_def
      MAX_ORDERS_PER_SIDE_def new_Order_def matchOrdersForTicker_def matchLoop.simps
      matchIteration_def scanBuy.simps scanSell.simps deref_def

section \<open>The scan loops\<close>

text \<open>
  A scan fails exactly when the snapshot count exceeds the capacity. Otherwise, started at
  index \<open>i\<close> with best price \<open>h\<close>, it either keeps its accumulators, and then no slot from
  \<open>i\<close> on beats \<open>h\<close>, or it returns the first slot with the extreme price, which beats \<open>h\<close>.
\<close>

lemma scanBuy_oob:
  "MAX_ORDERS_PER_SIDE < n \<Longrightarrow> int i \<le> MAX_ORDERS_PER_SIDE \<Longrightarrow>
     scanBuy book n i b h = Inl OutOfBounds"
proof (induction book n i b h rule: scanBuy.induct)
  case (1 book n i bestBuy highestBuyPrice)
  show ?case
  proof (cases "MAX_ORDERS_PER_SIDE \<le> int i")
    case True
    with 1 show ?thesis by (subst scanBuy.simps) simp
  next
    case False
    with 1 show ?thesis
      by (subst scanBuy.simps) (auto split: option.splits)
  qed
qed

lemma scanBuy_ok:
  "n \<le> MAX_ORDERS_PER_SIDE \<Longrightarrow> \<exists>r. scanBuy book n i b h = Inr r"
proof (induction book n i b h rule: scanBuy.induct)
  case (1 book n i bestBuy highestBuyPrice)
  then show ?case
    by (subst scanBuy.simps) (auto split: option.splits)
qed

lemma scanBuy_spec:
  "scanBuy book n i b h = Inr (b', h') \<Longrightarrow>
     (b' = b \<and> h' = h \<and>
        (\<forall>k ord. i \<le> k \<and> int k < n \<and> holds (buyOrders book) k ord \<longrightarrow> price ord \<le> h))
   \<or> (\<exists>j ord. b' = Some j \<and> i \<le> j \<and> int j < n \<and> holds (buyOrders book) j ord \<and>
          price ord = h' \<and> h < h' \<and>
          (\<forall>k ord'. i \<le> k \<and> int k < n \<and> holds (buyOrders book) k ord'
              \<longrightarrow> price ord' \<le> h' \<and> (k < j \<longrightarrow> price ord' < h')))"
proof (induction book n i b h arbitrary: b' h' rule: scanBuy.induct)
  case (1 book n i bestBuy highestBuyPrice)
  note IH = "1.IH" and res = "1.prems"
  show ?case
  proof (cases "int i < n")
    case False
    with res show ?thesis by (subst (asm) scanBuy.simps) auto
  next
    case lt: True
    from res lt have inb: "\<not> MAX_ORDERS_PER_SIDE \<le> int i"
      by (subst (asm) scanBuy.simps) (auto split: if_splits)
    have ge: "\<And>k. i \<le> k \<Longrightarrow> k = i \<or> i + 1 \<le> k" by auto
    show ?thesis
    proof (cases "\<exists>ord. holds (buyOrders book) i ord \<and> highestBuyPrice < price ord")
      case False
      with res lt inb have r: "scanBuy book n (i + 1) bestBuy highestBuyPrice = Inr (b', h')"
        by (subst (asm) scanBuy.simps) (auto simp: holds_def split: option.splits if_splits)
      have here: "\<And>ord. holds (buyOrders book) i ord \<Longrightarrow> price ord \<le> highestBuyPrice"
        using False by force
      have "(b' = bestBuy \<and> h' = highestBuyPrice \<and>
        (\<forall>k ord. i + 1 \<le> k \<and> int k < n \<and> holds (buyOrders book) k ord \<longrightarrow> price ord \<le> highestBuyPrice))
   \<or> (\<exists>j ord. b' = Some j \<and> i + 1 \<le> j \<and> int j < n \<and> holds (buyOrders book) j ord \<and>
          price ord = h' \<and> highestBuyPrice < h' \<and>
          (\<forall>k ord'. i + 1 \<le> k \<and> int k < n \<and> holds (buyOrders book) k ord'
              \<longrightarrow> price ord' \<le> h' \<and> (k < j \<longrightarrow> price ord' < h')))"
      proof (cases "buyOrders book i")
        case None
        from IH(1)[OF lt inb None r] show ?thesis .
      next
        case (Some ord)
        with False have "\<not> (0 < quantity ord \<and> highestBuyPrice < price ord)"
          by (auto simp: holds_def)
        from IH(3)[OF lt inb Some this r] show ?thesis .
      qed
      then show ?thesis
      proof (elim disjE exE conjE)
        assume a: "b' = bestBuy" "h' = highestBuyPrice"
          "\<forall>k ord. i + 1 \<le> k \<and> int k < n \<and> holds (buyOrders book) k ord \<longrightarrow> price ord \<le> highestBuyPrice"
        have "\<forall>k ord. i \<le> k \<and> int k < n \<and> holds (buyOrders book) k ord \<longrightarrow> price ord \<le> highestBuyPrice"
          using a(3) here ge by blast
        with a show ?thesis by blast
      next
        fix j ord
        assume a: "b' = Some j" "i + 1 \<le> j" "int j < n" "holds (buyOrders book) j ord"
          "price ord = h'" "highestBuyPrice < h'"
          "\<forall>k ord'. i + 1 \<le> k \<and> int k < n \<and> holds (buyOrders book) k ord'
              \<longrightarrow> price ord' \<le> h' \<and> (k < j \<longrightarrow> price ord' < h')"
        have "\<forall>k ord'. i \<le> k \<and> int k < n \<and> holds (buyOrders book) k ord'
              \<longrightarrow> price ord' \<le> h' \<and> (k < j \<longrightarrow> price ord' < h')"
        proof (intro allI impI)
          fix k ord'
          assume k: "i \<le> k \<and> int k < n \<and> holds (buyOrders book) k ord'"
          show "price ord' \<le> h' \<and> (k < j \<longrightarrow> price ord' < h')"
          proof (cases "k = i")
            case True
            with k here a(6) show ?thesis by fastforce
          next
            case False
            with k have "i + 1 \<le> k" by simp
            with k a(7) show ?thesis by blast
          qed
        qed
        moreover have "i \<le> j" using a(2) by simp
        ultimately show ?thesis using a by blast
      qed
    next
      case True
      then obtain ord where ord: "holds (buyOrders book) i ord" "highestBuyPrice < price ord"
        by blast
      then have some: "buyOrders book i = Some ord" and c: "0 < quantity ord \<and> highestBuyPrice < price ord"
        by (auto simp: holds_def)
      from res lt inb some c have r: "scanBuy book n (i + 1) (Some i) (price ord) = Inr (b', h')"
        by (subst (asm) scanBuy.simps) simp
      have here: "\<And>ord'. holds (buyOrders book) i ord' \<Longrightarrow> ord' = ord"
        using some by (simp add: holds_def)
      from IH(2)[OF lt inb some c r] show ?thesis
      proof (elim disjE exE conjE)
        assume a: "b' = Some i" "h' = price ord"
          "\<forall>k orda. i + 1 \<le> k \<and> int k < n \<and> holds (buyOrders book) k orda \<longrightarrow> price orda \<le> price ord"
        have "\<forall>k ord'. i \<le> k \<and> int k < n \<and> holds (buyOrders book) k ord'
              \<longrightarrow> price ord' \<le> h' \<and> (k < i \<longrightarrow> price ord' < h')"
        proof (intro allI impI)
          fix k ord'
          assume k: "i \<le> k \<and> int k < n \<and> holds (buyOrders book) k ord'"
          show "price ord' \<le> h' \<and> (k < i \<longrightarrow> price ord' < h')"
          proof (cases "k = i")
            case True
            with k here a(2) show ?thesis by fastforce
          next
            case False
            with k have "i + 1 \<le> k" by simp
            with k a(3) a(2) show ?thesis by auto
          qed
        qed
        with a ord lt show ?thesis by blast
      next
        fix j ord2
        assume a: "b' = Some j" "i + 1 \<le> j" "int j < n" "holds (buyOrders book) j ord2"
          "price ord2 = h'" "price ord < h'"
          "\<forall>k ord'. i + 1 \<le> k \<and> int k < n \<and> holds (buyOrders book) k ord'
              \<longrightarrow> price ord' \<le> h' \<and> (k < j \<longrightarrow> price ord' < h')"
        have "\<forall>k ord'. i \<le> k \<and> int k < n \<and> holds (buyOrders book) k ord'
              \<longrightarrow> price ord' \<le> h' \<and> (k < j \<longrightarrow> price ord' < h')"
        proof (intro allI impI)
          fix k ord'
          assume k: "i \<le> k \<and> int k < n \<and> holds (buyOrders book) k ord'"
          show "price ord' \<le> h' \<and> (k < j \<longrightarrow> price ord' < h')"
          proof (cases "k = i")
            case True
            with k here a(6) show ?thesis by fastforce
          next
            case False
            with k have "i + 1 \<le> k" by simp
            with k a(7) show ?thesis by blast
          qed
        qed
        moreover have "i \<le> j" using a(2) by simp
        moreover have "highestBuyPrice < h'" using a(6) ord(2) by simp
        ultimately show ?thesis using a by blast
      qed
    qed
  qed
qed

lemma scanSell_oob:
  "MAX_ORDERS_PER_SIDE < n \<Longrightarrow> int i \<le> MAX_ORDERS_PER_SIDE \<Longrightarrow>
     scanSell book n i b h = Inl OutOfBounds"
proof (induction book n i b h rule: scanSell.induct)
  case (1 book n i bestSell lowestSellPrice)
  show ?case
  proof (cases "MAX_ORDERS_PER_SIDE \<le> int i")
    case True
    with 1 show ?thesis by (subst scanSell.simps) simp
  next
    case False
    with 1 show ?thesis
      by (subst scanSell.simps) (auto split: option.splits)
  qed
qed

lemma scanSell_ok:
  "n \<le> MAX_ORDERS_PER_SIDE \<Longrightarrow> \<exists>r. scanSell book n i b h = Inr r"
proof (induction book n i b h rule: scanSell.induct)
  case (1 book n i bestSell lowestSellPrice)
  then show ?case
    by (subst scanSell.simps) (auto split: option.splits)
qed

lemma scanSell_spec:
  "scanSell book n i b h = Inr (b', h') \<Longrightarrow>
     (b' = b \<and> h' = h \<and>
        (\<forall>k ord. i \<le> k \<and> int k < n \<and> holds (sellOrders book) k ord \<longrightarrow> h \<le> price ord))
   \<or> (\<exists>j ord. b' = Some j \<and> i \<le> j \<and> int j < n \<and> holds (sellOrders book) j ord \<and>
          price ord = h' \<and> h' < h \<and>
          (\<forall>k ord'. i \<le> k \<and> int k < n \<and> holds (sellOrders book) k ord'
              \<longrightarrow> h' \<le> price ord' \<and> (k < j \<longrightarrow> h' < price ord')))"
proof (induction book n i b h arbitrary: b' h' rule: scanSell.induct)
  case (1 book n i bestSell lowestSellPrice)
  note IH = "1.IH" and res = "1.prems"
  show ?case
  proof (cases "int i < n")
    case False
    with res show ?thesis by (subst (asm) scanSell.simps) auto
  next
    case lt: True
    from res lt have inb: "\<not> MAX_ORDERS_PER_SIDE \<le> int i"
      by (subst (asm) scanSell.simps) (auto split: if_splits)
    have ge: "\<And>k. i \<le> k \<Longrightarrow> k = i \<or> i + 1 \<le> k" by auto
    show ?thesis
    proof (cases "\<exists>ord. holds (sellOrders book) i ord \<and> price ord < lowestSellPrice")
      case False
      with res lt inb have r: "scanSell book n (i + 1) bestSell lowestSellPrice = Inr (b', h')"
        by (subst (asm) scanSell.simps) (auto simp: holds_def split: option.splits if_splits)
      have here: "\<And>ord. holds (sellOrders book) i ord \<Longrightarrow> lowestSellPrice \<le> price ord"
        using False by force
      have "(b' = bestSell \<and> h' = lowestSellPrice \<and>
        (\<forall>k ord. i + 1 \<le> k \<and> int k < n \<and> holds (sellOrders book) k ord \<longrightarrow> lowestSellPrice \<le> price ord))
   \<or> (\<exists>j ord. b' = Some j \<and> i + 1 \<le> j \<and> int j < n \<and> holds (sellOrders book) j ord \<and>
          price ord = h' \<and> h' < lowestSellPrice \<and>
          (\<forall>k ord'. i + 1 \<le> k \<and> int k < n \<and> holds (sellOrders book) k ord'
              \<longrightarrow> h' \<le> price ord' \<and> (k < j \<longrightarrow> h' < price ord')))"
      proof (cases "sellOrders book i")
        case None
        from IH(1)[OF lt inb None r] show ?thesis .
      next
        case (Some ord)
        with False have "\<not> (0 < quantity ord \<and> price ord < lowestSellPrice)"
          by (auto simp: holds_def)
        from IH(3)[OF lt inb Some this r] show ?thesis .
      qed
      then show ?thesis
      proof (elim disjE exE conjE)
        assume a: "b' = bestSell" "h' = lowestSellPrice"
          "\<forall>k ord. i + 1 \<le> k \<and> int k < n \<and> holds (sellOrders book) k ord \<longrightarrow> lowestSellPrice \<le> price ord"
        have "\<forall>k ord. i \<le> k \<and> int k < n \<and> holds (sellOrders book) k ord \<longrightarrow> lowestSellPrice \<le> price ord"
          using a(3) here ge by blast
        with a show ?thesis by blast
      next
        fix j ord
        assume a: "b' = Some j" "i + 1 \<le> j" "int j < n" "holds (sellOrders book) j ord"
          "price ord = h'" "h' < lowestSellPrice"
          "\<forall>k ord'. i + 1 \<le> k \<and> int k < n \<and> holds (sellOrders book) k ord'
              \<longrightarrow> h' \<le> price ord' \<and> (k < j \<longrightarrow> h' < price ord')"
        have "\<forall>k ord'. i \<le> k \<and> int k < n \<and> holds (sellOrders book) k ord'
              \<longrightarrow> h' \<le> price ord' \<and> (k < j \<longrightarrow> h' < price ord')"
        proof (intro allI impI)
          fix k ord'
          assume k: "i \<le> k \<and> int k < n \<and> holds (sellOrders book) k ord'"
          show "h' \<le> price ord' \<and> (k < j \<longrightarrow> h' < price ord')"
          proof (cases "k = i")
            case True
            with k here a(6) show ?thesis by fastforce
          next
            case False
            with k have "i + 1 \<le> k" by simp
            with k a(7) show ?thesis by blast
          qed
        qed
        moreover have "i \<le> j" using a(2) by simp
        ultimately show ?thesis using a by blast
      qed
    next
      case True
      then obtain ord where ord: "holds (sellOrders book) i ord" "price ord < lowestSellPrice"
        by blast
      then have some: "sellOrders book i = Some ord" and c: "0 < quantity ord \<and> price ord < lowestSellPrice"
        by (auto simp: holds_def)
      from res lt inb some c have r: "scanSell book n (i + 1) (Some i) (price ord) = Inr (b', h')"
        by (subst (asm) scanSell.simps) simp
      have here: "\<And>ord'. holds (sellOrders book) i ord' \<Longrightarrow> ord' = ord"
        using some by (simp add: holds_def)
      from IH(2)[OF lt inb some c r] show ?thesis
      proof (elim disjE exE conjE)
        assume a: "b' = Some i" "h' = price ord"
          "\<forall>k orda. i + 1 \<le> k \<and> int k < n \<and> holds (sellOrders book) k orda \<longrightarrow> price ord \<le> price orda"
        have "\<forall>k ord'. i \<le> k \<and> int k < n \<and> holds (sellOrders book) k ord'
              \<longrightarrow> h' \<le> price ord' \<and> (k < i \<longrightarrow> h' < price ord')"
        proof (intro allI impI)
          fix k ord'
          assume k: "i \<le> k \<and> int k < n \<and> holds (sellOrders book) k ord'"
          show "h' \<le> price ord' \<and> (k < i \<longrightarrow> h' < price ord')"
          proof (cases "k = i")
            case True
            with k here a(2) show ?thesis by fastforce
          next
            case False
            with k have "i + 1 \<le> k" by simp
            with k a(3) a(2) show ?thesis by auto
          qed
        qed
        with a ord lt show ?thesis by blast
      next
        fix j ord2
        assume a: "b' = Some j" "i + 1 \<le> j" "int j < n" "holds (sellOrders book) j ord2"
          "price ord2 = h'" "h' < price ord"
          "\<forall>k ord'. i + 1 \<le> k \<and> int k < n \<and> holds (sellOrders book) k ord'
              \<longrightarrow> h' \<le> price ord' \<and> (k < j \<longrightarrow> h' < price ord')"
        have "\<forall>k ord'. i \<le> k \<and> int k < n \<and> holds (sellOrders book) k ord'
              \<longrightarrow> h' \<le> price ord' \<and> (k < j \<longrightarrow> h' < price ord')"
        proof (intro allI impI)
          fix k ord'
          assume k: "i \<le> k \<and> int k < n \<and> holds (sellOrders book) k ord'"
          show "h' \<le> price ord' \<and> (k < j \<longrightarrow> h' < price ord')"
          proof (cases "k = i")
            case True
            with k here a(6) show ?thesis by fastforce
          next
            case False
            with k have "i + 1 \<le> k" by simp
            with k a(7) show ?thesis by blast
          qed
        qed
        moreover have "i \<le> j" using a(2) by simp
        moreover have "h' < lowestSellPrice" using a(6) ord(2) by simp
        ultimately show ?thesis using a by blast
      qed
    qed
  qed
qed

lemma scanBuy_bound:
  assumes "scanBuy book n 0 b h = Inr r"
  shows "n \<le> MAX_ORDERS_PER_SIDE"
proof (rule ccontr)
  assume "\<not> n \<le> MAX_ORDERS_PER_SIDE"
  then have "scanBuy book n 0 b h = Inl OutOfBounds"
    by (intro scanBuy_oob) (simp_all add: MAX_ORDERS_PER_SIDE_def)
  with assms show False by simp
qed

lemma scanSell_bound:
  assumes "scanSell book n 0 b h = Inr r"
  shows "n \<le> MAX_ORDERS_PER_SIDE"
proof (rule ccontr)
  assume "\<not> n \<le> MAX_ORDERS_PER_SIDE"
  then have "scanSell book n 0 b h = Inl OutOfBounds"
    by (intro scanSell_oob) (simp_all add: MAX_ORDERS_PER_SIDE_def)
  with assms show False by simp
qed

lemma scanBuy_None:
  assumes "scanBuy book n 0 None h = Inr (None, h')"
  shows "h' = h \<and> (\<forall>k ord. int k < n \<and> holds (buyOrders book) k ord \<longrightarrow> price ord \<le> h)"
  using scanBuy_spec[OF assms] by auto

lemma scanBuy_Some:
  assumes "scanBuy book n 0 None h = Inr (Some j, h')"
  shows "\<exists>ord. holds (buyOrders book) j ord \<and> price ord = h' \<and> h < h' \<and> int j < n \<and>
           (\<forall>k ord'. int k < n \<and> holds (buyOrders book) k ord'
              \<longrightarrow> price ord' \<le> h' \<and> (k < j \<longrightarrow> price ord' < h'))"
  using scanBuy_spec[OF assms] by auto

lemma scanSell_None:
  assumes "scanSell book n 0 None h = Inr (None, h')"
  shows "h' = h \<and> (\<forall>k ord. int k < n \<and> holds (sellOrders book) k ord \<longrightarrow> h \<le> price ord)"
  using scanSell_spec[OF assms] by auto

lemma scanSell_Some:
  assumes "scanSell book n 0 None h = Inr (Some j, h')"
  shows "\<exists>ord. holds (sellOrders book) j ord \<and> price ord = h' \<and> h' < h \<and> int j < n \<and>
           (\<forall>k ord'. int k < n \<and> holds (sellOrders book) k ord'
              \<longrightarrow> h' \<le> price ord' \<and> (k < j \<longrightarrow> h' < price ord'))"
  using scanSell_spec[OF assms] by auto

section \<open>One iteration and the loop\<close>

lemma matchIteration_cross:
  assumes "matchIteration ticker book = Inr (Some (book', tr))"
  shows "\<exists>b a bo so.
           scanBuy book (sint (buyCount book)) 0 None (- 1) = Inr (Some b, price bo) \<and>
           scanSell book (sint (sellCount book)) 0 None 1000000000 = Inr (Some a, price so) \<and>
           holds (buyOrders book) b bo \<and> holds (sellOrders book) a so \<and>
           b < 1024 \<and> a < 1024 \<and> price so \<le> price bo \<and>
           (book', tr) = cross ticker book b bo a so"
proof -
  from assms obtain bb hb where sb: "scanBuy book (sint (buyCount book)) 0 None (- 1) = Inr (bb, hb)"
    by (auto simp: matchIteration_def split: sum.splits)
  from assms sb obtain bs hs where ss: "scanSell book (sint (sellCount book)) 0 None 1000000000 = Inr (bs, hs)"
    by (auto simp: matchIteration_def split: sum.splits)
  from assms sb ss obtain b a where ba: "bb = Some b" "bs = Some a"
    by (auto simp: matchIteration_def split: option.splits)
  from scanBuy_Some[OF sb[unfolded ba]] obtain bo where
    bo: "holds (buyOrders book) b bo" "price bo = hb" "int b < sint (buyCount book)" by blast
  from scanSell_Some[OF ss[unfolded ba]] obtain so where
    so: "holds (sellOrders book) a so" "price so = hs" "int a < sint (sellCount book)" by blast
  from scanBuy_bound[OF sb] bo(3) have b: "b < 1024" by (simp add: MAX_ORDERS_PER_SIDE_def)
  from scanSell_bound[OF ss] so(3) have a: "a < 1024" by (simp add: MAX_ORDERS_PER_SIDE_def)
  from bo(1) so(1) have sl: "buyOrders book b = Some bo" "sellOrders book a = Some so"
    by (simp_all add: holds_def)
  from assms sb ss ba sl have "price so \<le> price bo \<and> (book', tr) = cross ticker book b bo a so"
    by (auto simp: matchIteration_def deref_def cross_def Let_def min_def split: if_splits)
  with sb ss ba bo so a b show ?thesis by blast
qed

lemma matchIteration_error:
  assumes "matchIteration ticker book = Inl e"
  shows "e = OutOfBounds \<and> (MAX_ORDERS_PER_SIDE < sint (buyCount book) \<or> MAX_ORDERS_PER_SIDE < sint (sellCount book))"
proof (cases "scanBuy book (sint (buyCount book)) 0 None (- 1)")
  case (Inl e')
  have gt: "MAX_ORDERS_PER_SIDE < sint (buyCount book)"
    using scanBuy_ok[of "sint (buyCount book)" book 0 None "- 1"] Inl by fastforce
  then have "scanBuy book (sint (buyCount book)) 0 None (- 1) = Inl OutOfBounds"
    by (intro scanBuy_oob) (simp_all add: MAX_ORDERS_PER_SIDE_def)
  with Inl assms gt show ?thesis by (simp add: matchIteration_def)
next
  case sb: (Inr r)
  obtain bb hb where r: "r = (bb, hb)" by (cases r)
  show ?thesis
  proof (cases "scanSell book (sint (sellCount book)) 0 None 1000000000")
    case (Inl e')
    have gt: "MAX_ORDERS_PER_SIDE < sint (sellCount book)"
      using scanSell_ok[of "sint (sellCount book)" book 0 None 1000000000] Inl by fastforce
    then have "scanSell book (sint (sellCount book)) 0 None 1000000000 = Inl OutOfBounds"
      by (intro scanSell_oob) (simp_all add: MAX_ORDERS_PER_SIDE_def)
    with Inl assms gt sb r show ?thesis by (simp add: matchIteration_def)
  next
    case ss: (Inr r')
    obtain bs hs where r': "r' = (bs, hs)" by (cases r')
    from assms sb ss r r' obtain b a where ba: "bb = Some b" "bs = Some a"
      by (auto simp: matchIteration_def split: option.splits)
    from scanBuy_Some[OF sb[unfolded r ba]] obtain bo where "buyOrders book b = Some bo"
      by (auto simp: holds_def)
    moreover from scanSell_Some[OF ss[unfolded r' ba]] obtain so where "sellOrders book a = Some so"
      by (auto simp: holds_def)
    ultimately have False using assms sb ss r r' ba
      by (auto simp: matchIteration_def deref_def Let_def split: if_splits)
    then show ?thesis ..
  qed
qed

lemma matchIteration_ok:
  assumes "sint (buyCount book) \<le> MAX_ORDERS_PER_SIDE" "sint (sellCount book) \<le> MAX_ORDERS_PER_SIDE"
  shows "\<exists>r. matchIteration ticker book = Inr r"
  using matchIteration_error[of ticker book] assms
  by (cases "matchIteration ticker book") auto

lemma matchIteration_oob:
  assumes "MAX_ORDERS_PER_SIDE < sint (buyCount book) \<or> MAX_ORDERS_PER_SIDE < sint (sellCount book)"
  shows "matchIteration ticker book = Inl OutOfBounds"
proof (cases "MAX_ORDERS_PER_SIDE < sint (buyCount book)")
  case True
  then have "scanBuy book (sint (buyCount book)) 0 None (- 1) = Inl OutOfBounds"
    by (intro scanBuy_oob) (simp_all add: MAX_ORDERS_PER_SIDE_def)
  then show ?thesis by (simp add: matchIteration_def)
next
  case False
  with assms have gt: "MAX_ORDERS_PER_SIDE < sint (sellCount book)" by simp
  then have s: "scanSell book (sint (sellCount book)) 0 None 1000000000 = Inl OutOfBounds"
    by (intro scanSell_oob) (simp_all add: MAX_ORDERS_PER_SIDE_def)
  from False obtain r where "scanBuy book (sint (buyCount book)) 0 None (- 1) = Inr r"
    using scanBuy_ok[of "sint (buyCount book)" book 0 None "- 1"] by auto
  with s show ?thesis by (simp add: matchIteration_def split: prod.splits)
qed


lemma filter_length_le:
  "(\<And>x. x \<in> set xs \<Longrightarrow> Q x \<Longrightarrow> P x) \<Longrightarrow> length (filter Q xs) \<le> length (filter P xs)"
  by (induction xs) auto

lemma filter_length_less:
  "(\<And>x. x \<in> set xs \<Longrightarrow> Q x \<Longrightarrow> P x) \<Longrightarrow> y \<in> set xs \<Longrightarrow> P y \<Longrightarrow> \<not> Q y \<Longrightarrow>
     length (filter Q xs) < length (filter P xs)"
proof (induction xs)
  case Nil
  then show ?case by simp
next
  case (Cons x xs)
  have le: "length (filter Q xs) \<le> length (filter P xs)"
    using Cons.prems(1) by (intro filter_length_le) simp
  show ?case
  proof (cases "y = x")
    case True
    with Cons.prems le show ?thesis by simp
  next
    case False
    with Cons.prems have "y \<in> set xs" by simp
    with Cons have "length (filter Q xs) < length (filter P xs)" by simp
    with Cons.prems(1)[of x] show ?thesis by auto
  qed
qed

lemma holds_eligible: "holds slots k ord \<Longrightarrow> eligible (slots k)"
  by (simp add: holds_def eligible_def)

lemma cross_live:
  assumes hb: "holds (buyOrders book) b bo" and ha: "holds (sellOrders book) a so"
    and b: "b < 1024" and a: "a < 1024"
    and c: "(book', tr) = cross ticker book b bo a so"
  shows "live book' < live book"
proof -
  let ?m = "min (quantity bo) (quantity so)"
  have B: "buyOrders book' = (buyOrders book)(b \<mapsto> bo\<lparr>quantity := quantity bo - ?m\<rparr>)"
    and S: "sellOrders book' = (sellOrders book)(a \<mapsto> so\<lparr>quantity := quantity so - ?m\<rparr>)"
    using c by (simp_all add: cross_def)
  have eb: "\<And>i. eligible (buyOrders book' i) \<Longrightarrow> eligible (buyOrders book i)"
    using hb by (auto simp: B eligible_def holds_def split: if_splits)
  have es: "\<And>i. eligible (sellOrders book' i) \<Longrightarrow> eligible (sellOrders book i)"
    using ha by (auto simp: S eligible_def holds_def split: if_splits)
  have leb: "length (filter (\<lambda>i. eligible (buyOrders book' i)) [0..<1024])
        \<le> length (filter (\<lambda>i. eligible (buyOrders book i)) [0..<1024])"
    by (rule filter_length_le) (rule eb)
  have les: "length (filter (\<lambda>i. eligible (sellOrders book' i)) [0..<1024])
        \<le> length (filter (\<lambda>i. eligible (sellOrders book i)) [0..<1024])"
    by (rule filter_length_le) (rule es)
  show ?thesis
  proof (cases "quantity bo \<le> quantity so")
    case True
    then have "\<not> eligible (buyOrders book' b)" by (simp add: B eligible_def min_def)
    moreover have "eligible (buyOrders book b)" using hb by (rule holds_eligible)
    moreover have "b \<in> set [0..<1024]" using b by simp
    ultimately have "length (filter (\<lambda>i. eligible (buyOrders book' i)) [0..<1024])
        < length (filter (\<lambda>i. eligible (buyOrders book i)) [0..<1024])"
      using eb by (intro filter_length_less[where y = b]) auto
    with les show ?thesis by (simp add: live_def)
  next
    case False
    then have "\<not> eligible (sellOrders book' a)" by (simp add: S eligible_def min_def)
    moreover have "eligible (sellOrders book a)" using ha by (rule holds_eligible)
    moreover have "a \<in> set [0..<1024]" using a by simp
    ultimately have "length (filter (\<lambda>i. eligible (sellOrders book' i)) [0..<1024])
        < length (filter (\<lambda>i. eligible (sellOrders book i)) [0..<1024])"
      using es by (intro filter_length_less[where y = a]) auto
    with leb show ?thesis by (simp add: live_def)
  qed
qed

lemma matchIteration_live:
  assumes "matchIteration ticker book = Inr (Some (book', tr))"
  shows "live book' < live book"
  using matchIteration_cross[OF assms] cross_live by blast

lemma matchLoop_terminates: "\<exists>r. matchLoop ticker book out = Some r"
proof (induction "live book" arbitrary: book out rule: less_induct)
  case less
  show ?case
  proof (cases "matchIteration ticker book")
    case (Inl e)
    then show ?thesis by (subst matchLoop.simps) simp
  next
    case (Inr r)
    show ?thesis
    proof (cases r)
      case None
      with Inr show ?thesis by (subst matchLoop.simps) simp
    next
      case (Some x)
      obtain book' tr where x: "x = (book', tr)" by (cases x)
      from Inr Some x have "live book' < live book" by (intro matchIteration_live) simp
      from less[OF this] obtain r' where "matchLoop ticker book' (out @ [tr]) = Some r'" by blast
      with Inr Some x show ?thesis by (subst matchLoop.simps) simp
    qed
  qed
qed

text \<open>An invariant of the iterations holds of the book the loop returns, where the next
  iteration is the \<open>break\<close>.\<close>

lemma matchLoop_rule:
  assumes "matchLoop ticker book out = Some (Inr (book', out'))"
    and "I book out"
    and "\<And>b o1 b1 tr. I b o1 \<Longrightarrow> matchIteration ticker b = Inr (Some (b1, tr)) \<Longrightarrow> I b1 (o1 @ [tr])"
  shows "I book' out' \<and> matchIteration ticker book' = Inr None"
  using assms(1,2)
proof (induction "live book" arbitrary: book out rule: less_induct)
  case less
  show ?case
  proof (cases "matchIteration ticker book")
    case (Inl e)
    with less.prems(1) show ?thesis by (subst (asm) matchLoop.simps) simp
  next
    case (Inr r)
    show ?thesis
    proof (cases r)
      case None
      with Inr less.prems show ?thesis by (subst (asm) matchLoop.simps) simp
    next
      case (Some x)
      obtain b1 tr where x: "x = (b1, tr)" by (cases x)
      from Inr Some x have it: "matchIteration ticker book = Inr (Some (b1, tr))" by simp
      then have lt: "live b1 < live book" by (rule matchIteration_live)
      from less.prems(1) it have "matchLoop ticker b1 (out @ [tr]) = Some (Inr (book', out'))"
        by (subst (asm) matchLoop.simps) simp
      from less.hyps[OF lt this assms(3)[OF less.prems(2) it]] show ?thesis .
    qed
  qed
qed

lemma cross_counts:
  "(book', tr) = cross ticker book b bo a so \<Longrightarrow>
     buyCount book' = buyCount book \<and> sellCount book' = sellCount book"
  by (simp add: cross_def)

lemma matchIteration_counts:
  assumes "matchIteration ticker book = Inr (Some (book', tr))"
  shows "buyCount book' = buyCount book \<and> sellCount book' = sellCount book"
  using matchIteration_cross[OF assms] cross_counts by blast

lemma matchLoop_ok:
  assumes "sint (buyCount book) \<le> MAX_ORDERS_PER_SIDE" "sint (sellCount book) \<le> MAX_ORDERS_PER_SIDE"
  shows "\<exists>book' out'. matchLoop ticker book out = Some (Inr (book', out'))"
  using assms
proof (induction "live book" arbitrary: book out rule: less_induct)
  case less
  from matchIteration_ok[OF less.prems] obtain r where r: "matchIteration ticker book = Inr r"
    by blast
  show ?case
  proof (cases r)
    case None
    with r show ?thesis by (subst matchLoop.simps) simp
  next
    case (Some x)
    obtain b1 tr where x: "x = (b1, tr)" by (cases x)
    from r Some x have it: "matchIteration ticker book = Inr (Some (b1, tr))" by simp
    from matchIteration_counts[OF it] less.prems
    have c: "sint (buyCount b1) \<le> MAX_ORDERS_PER_SIDE" "sint (sellCount b1) \<le> MAX_ORDERS_PER_SIDE"
      by simp_all
    from less.hyps[OF matchIteration_live[OF it] c]
    obtain book' out' where "matchLoop ticker b1 (out @ [tr]) = Some (Inr (book', out'))" by blast
    with it show ?thesis by (subst matchLoop.simps) simp
  qed
qed

lemma matchLoop_oob:
  assumes "MAX_ORDERS_PER_SIDE < sint (buyCount book) \<or> MAX_ORDERS_PER_SIDE < sint (sellCount book)"
  shows "matchLoop ticker book out = Some (Inl OutOfBounds)"
  using matchIteration_oob[OF assms] by (subst matchLoop.simps) simp

lemma matchOrdersForTicker_terminates: "\<exists>r. matchOrdersForTicker ticker s = Some r"
proof -
  obtain r where "matchLoop ticker (tickers s (unat ticker)) [] = Some r"
    using matchLoop_terminates by blast
  then show ?thesis
    by (cases r) (auto simp: matchOrdersForTicker_def split: prod.splits)
qed

lemma matchOrdersForTicker_ok:
  assumes "uint ticker < NUM_TICKERS"
    and "sint (buyCount (tickers s (unat ticker))) \<le> MAX_ORDERS_PER_SIDE"
    and "sint (sellCount (tickers s (unat ticker))) \<le> MAX_ORDERS_PER_SIDE"
  shows "\<exists>s' out. matchOrdersForTicker ticker s = Some (Inr (s', out))"
proof -
  from matchLoop_ok[OF assms(2,3)] obtain book' out' where
    "matchLoop ticker (tickers s (unat ticker)) [] = Some (Inr (book', out'))" by blast
  with assms(1) show ?thesis by (simp add: matchOrdersForTicker_def)
qed

lemma cross_zero:
  assumes "(book', tr) = cross ticker book b bo a so"
  shows "\<exists>bo' so'. buyOrders book' b = Some bo' \<and> sellOrders book' a = Some so' \<and>
           (quantity bo' = 0 \<or> quantity so' = 0)"
  using assms by (auto simp: cross_def min_def)

lemma scenarioC_reached:
  "run [Submit True 3 30 100, Submit False 3 10 90, Submit False 3 10 95] engine_init []
     = Some (Inr (scenarioC, []))"
  by (simp add: eval_defs scenarioC_def scenarioC_book_def fun_upd_twist)

lemma scenarioC_iteration:
  "matchIteration 3 scenarioC_book = Inr (Some (scenarioC_book1, scenarioC_trade1))"
  by (simp add: matchIteration_def scanBuy.simps scanSell.simps scenarioC_book_def
      scenarioC_book1_def scenarioC_trade1_def deref_def new_Order_def MAX_ORDERS_PER_SIDE_def)

section \<open>The loop within the arrays\<close>

text \<open>
  The loop of the model stops from every state, at the first read behind an array or at the
  \<open>break\<close>. The result \<open>OutOfBounds\<close> marks undefined behaviour of the source, not a
  return of the pass: the pass is known to return only when the ticker and both snapshot
  counts are within their arrays. There every iteration that executes a cross leaves the
  quantity of at least one of the two matched orders at zero, and the number of eligible
  slots of the book strictly decreases.
\<close>

theorem matching_pass_terminates:
  "(\<exists>r. matchOrdersForTicker ticker s = Some r) \<and>
   (uint ticker < NUM_TICKERS \<and>
    sint (buyCount (tickers s (unat ticker))) \<le> MAX_ORDERS_PER_SIDE \<and>
    sint (sellCount (tickers s (unat ticker))) \<le> MAX_ORDERS_PER_SIDE \<longrightarrow>
      (\<exists>s' out. matchOrdersForTicker ticker s = Some (Inr (s', out)))) \<and>
   (\<forall>book book' tr. matchIteration ticker book = Inr (Some (book', tr)) \<longrightarrow>
      live book' < live book \<and>
      (\<exists>b a bo so bo' so'.
          scanBuy book (sint (buyCount book)) 0 None (- 1) = Inr (Some b, price bo) \<and>
          scanSell book (sint (sellCount book)) 0 None 1000000000 = Inr (Some a, price so) \<and>
          buyOrders book b = Some bo \<and> sellOrders book a = Some so \<and>
          0 < quantity bo \<and> 0 < quantity so \<and>
          buyOrders book' b = Some bo' \<and> sellOrders book' a = Some so' \<and>
          (quantity bo' = 0 \<or> quantity so' = 0)))"
proof (intro conjI allI impI)
  show "\<exists>r. matchOrdersForTicker ticker s = Some r"
    by (rule matchOrdersForTicker_terminates)
next
  assume "uint ticker < NUM_TICKERS \<and>
    sint (buyCount (tickers s (unat ticker))) \<le> MAX_ORDERS_PER_SIDE \<and>
    sint (sellCount (tickers s (unat ticker))) \<le> MAX_ORDERS_PER_SIDE"
  then show "\<exists>s' out. matchOrdersForTicker ticker s = Some (Inr (s', out))"
    by (intro matchOrdersForTicker_ok) simp_all
next
  fix book book' tr
  assume it: "matchIteration ticker book = Inr (Some (book', tr))"
  then show "live book' < live book" by (rule matchIteration_live)
  from matchIteration_cross[OF it] obtain b a bo so where
    x: "scanBuy book (sint (buyCount book)) 0 None (- 1) = Inr (Some b, price bo)"
       "scanSell book (sint (sellCount book)) 0 None 1000000000 = Inr (Some a, price so)"
       "holds (buyOrders book) b bo" "holds (sellOrders book) a so"
       "(book', tr) = cross ticker book b bo a so"
    by blast
  from cross_zero[OF x(5)] obtain bo' so' where
    "buyOrders book' b = Some bo'" "sellOrders book' a = Some so'" "quantity bo' = 0 \<or> quantity so' = 0"
    by blast
  with x show "\<exists>b a bo so bo' so'.
          scanBuy book (sint (buyCount book)) 0 None (- 1) = Inr (Some b, price bo) \<and>
          scanSell book (sint (sellCount book)) 0 None 1000000000 = Inr (Some a, price so) \<and>
          buyOrders book b = Some bo \<and> sellOrders book a = Some so \<and>
          0 < quantity bo \<and> 0 < quantity so \<and>
          buyOrders book' b = Some bo' \<and> sellOrders book' a = Some so' \<and>
          (quantity bo' = 0 \<or> quantity so' = 0)"
    unfolding holds_def by blast
qed


theorem matching_pass_terminates_witness:
  "(\<exists>r. matchOrdersForTicker 3 scenarioC = Some r) \<and>
   (\<exists>s' out. matchOrdersForTicker 3 scenarioC = Some (Inr (s', out))) \<and>
   matchIteration 3 scenarioC_book = Inr (Some (scenarioC_book1, scenarioC_trade1)) \<and>
   live scenarioC_book1 < live scenarioC_book"
proof -
  have pre: "uint (3 :: uint16) < NUM_TICKERS \<and>
      sint (buyCount (tickers scenarioC (unat (3 :: uint16)))) \<le> MAX_ORDERS_PER_SIDE \<and>
      sint (sellCount (tickers scenarioC (unat (3 :: uint16)))) \<le> MAX_ORDERS_PER_SIDE"
    by (simp add: NUM_TICKERS_def MAX_ORDERS_PER_SIDE_def scenarioC_def scenarioC_book_def)
  from matching_pass_terminates[of 3 scenarioC] pre scenarioC_iteration show ?thesis
    by blast
qed

section \<open>The cross\<close>

text \<open>
  An iteration of the model executes a cross only when both scans stayed within their
  arrays. Then, with \<open>bo\<close> the best buy and \<open>so\<close> the best sell found by the scans: the
  quantity reported is the minimum of the two remaining quantities, both orders lose
  exactly that quantity (without wrap-around) and nothing else in the book changes, and
  the reported price is the price of the sell order, whatever the price of the buy order.
\<close>

theorem cross_quantity_and_price:
  assumes "matchIteration ticker book = Inr (Some (book', tr))"
  shows "\<exists>b a bo so bo' so'.
      scanBuy book (sint (buyCount book)) 0 None (- 1) = Inr (Some b, price bo) \<and>
      scanSell book (sint (sellCount book)) 0 None 1000000000 = Inr (Some a, price so) \<and>
      buyOrders book b = Some bo \<and> sellOrders book a = Some so \<and>
      trade_qty tr = min (quantity bo) (quantity so) \<and>
      buyOrders book' = (buyOrders book)(b \<mapsto> bo') \<and>
      sellOrders book' = (sellOrders book)(a \<mapsto> so') \<and>
      bo' = bo\<lparr>quantity := quantity bo - trade_qty tr\<rparr> \<and>
      so' = so\<lparr>quantity := quantity so - trade_qty tr\<rparr> \<and>
      unat (quantity bo) = unat (quantity bo') + unat (trade_qty tr) \<and>
      unat (quantity so) = unat (quantity so') + unat (trade_qty tr) \<and>
      trade_price tr = price so \<and> trade_ticker tr = ticker"
proof -
  from matchIteration_cross[OF assms] obtain b a bo so where
    x: "scanBuy book (sint (buyCount book)) 0 None (- 1) = Inr (Some b, price bo)"
       "scanSell book (sint (sellCount book)) 0 None 1000000000 = Inr (Some a, price so)"
       "holds (buyOrders book) b bo" "holds (sellOrders book) a so"
       "(book', tr) = cross ticker book b bo a so"
    by blast
  define bo' where "bo' = bo\<lparr>quantity := quantity bo - trade_qty tr\<rparr>"
  define so' where "so' = so\<lparr>quantity := quantity so - trade_qty tr\<rparr>"
  have m: "trade_qty tr = min (quantity bo) (quantity so)" "trade_price tr = price so"
      "trade_ticker tr = ticker"
    using x(5) by (simp_all add: cross_def)
  have le: "trade_qty tr \<le> quantity bo" "trade_qty tr \<le> quantity so"
    by (simp_all add: m(1))
  have ub: "unat (quantity bo) = unat (quantity bo') + unat (trade_qty tr)"
    using le(1) by (simp add: bo'_def unat_sub word_le_nat_alt)
  have us: "unat (quantity so) = unat (quantity so') + unat (trade_qty tr)"
    using le(2) by (simp add: so'_def unat_sub word_le_nat_alt)
  have B: "buyOrders book' = (buyOrders book)(b \<mapsto> bo')"
    using x(5) by (simp add: cross_def bo'_def m(1))
  have S: "sellOrders book' = (sellOrders book)(a \<mapsto> so')"
    using x(5) by (simp add: cross_def so'_def m(1))
  have sl: "buyOrders book b = Some bo" "sellOrders book a = Some so"
    using x(3,4) by (simp_all add: holds_def)
  from x(1,2) sl m ub us B S bo'_def so'_def show ?thesis by blast
qed

theorem cross_quantity_and_price_witness:
  "matchIteration 3 scenarioC_book = Inr (Some (scenarioC_book1, scenarioC_trade1)) \<and>
   (\<exists>b a bo so bo' so'.
      scanBuy scenarioC_book (sint (buyCount scenarioC_book)) 0 None (- 1) = Inr (Some b, price bo) \<and>
      scanSell scenarioC_book (sint (sellCount scenarioC_book)) 0 None 1000000000 = Inr (Some a, price so) \<and>
      buyOrders scenarioC_book b = Some bo \<and> sellOrders scenarioC_book a = Some so \<and>
      trade_qty scenarioC_trade1 = min (quantity bo) (quantity so) \<and>
      buyOrders scenarioC_book1 = (buyOrders scenarioC_book)(b \<mapsto> bo') \<and>
      sellOrders scenarioC_book1 = (sellOrders scenarioC_book)(a \<mapsto> so') \<and>
      bo' = bo\<lparr>quantity := quantity bo - trade_qty scenarioC_trade1\<rparr> \<and>
      so' = so\<lparr>quantity := quantity so - trade_qty scenarioC_trade1\<rparr> \<and>
      unat (quantity bo) = unat (quantity bo') + unat (trade_qty scenarioC_trade1) \<and>
      unat (quantity so) = unat (quantity so') + unat (trade_qty scenarioC_trade1) \<and>
      trade_price scenarioC_trade1 = price so \<and> trade_ticker scenarioC_trade1 = 3)"
  using cross_quantity_and_price[OF scenarioC_iteration] scenarioC_iteration by (rule_tac conjI)

section \<open>Scenario C\<close>

text \<open>
  Claim C5. From the empty engine, Buy(30 at 100.0), Sell(10 at 90.0), Sell(10 at 95.0) on
  instrument 3 and one matching pass on instrument 3 print exactly two trades, 10 shares
  at 90.0 and then 10 shares at 95.0; the buy order is left with quantity 10 and both sell
  orders with quantity 0.
\<close>

theorem scenario_C:
  "(case run [Submit True 3 30 100, Submit False 3 10 90, Submit False 3 10 95, Match 3]
           engine_init [] of
      Some (Inr (s', out)) \<Rightarrow>
        out = [\<lparr>trade_ticker = 3, trade_qty = 10, trade_price = 90\<rparr>,
               \<lparr>trade_ticker = 3, trade_qty = 10, trade_price = 95\<rparr>] \<and>
        map_option quantity (buyOrders (tickers s' 3) 0) = Some 10 \<and>
        map_option quantity (sellOrders (tickers s' 3) 0) = Some 0 \<and>
        map_option quantity (sellOrders (tickers s' 3) 1) = Some 0
    | _ \<Rightarrow> False)"
  by (simp add: addOrder_def engine_init_def TickerOrderBook_init_def NUM_TICKERS_def
      MAX_ORDERS_PER_SIDE_def new_Order_def matchOrdersForTicker_def matchLoop.simps
      matchIteration_def scanBuy.simps scanSell.simps deref_def)

section \<open>Submissions\<close>

lemma sint_of_nat32: "n < 2 ^ 31 \<Longrightarrow> sint (of_nat n :: 32 word) = int n"
  by (simp add: signed_of_nat signed_take_bit_int_eq_self)

lemma sint_of_nat32_wrap: "sint (of_nat (2 ^ 31) :: 32 word) = - (2 ^ 31)"
  by simp

lemma run_append:
  "run (xs @ ys) s out =
     (case run xs s out of Some (Inr (s', out')) \<Rightarrow> run ys s' out' | r \<Rightarrow> r)"
proof (induction xs arbitrary: s out)
  case Nil
  then show ?case by simp
next
  case (Cons x xs)
  show ?case
  proof (cases x)
    case (Submit ty tk q p)
    with Cons show ?thesis by (simp split: sum.splits)
  next
    case (Match tk)
    with Cons show ?thesis by (simp split: sum.splits option.splits prod.splits)
  qed
qed

lemma addOrder_rejected:
  "NUM_TICKERS \<le> uint tickerSymbol \<Longrightarrow>
     addOrder type tickerSymbol quant p s = Inr (s\<lparr>globalTimestamp := globalTimestamp s + 1\<rparr>)"
  by (simp add: addOrder_def)

lemma addOrder_wrapped:
  "uint tickerSymbol < NUM_TICKERS \<Longrightarrow> sint (sideCount type (tickers s (unat tickerSymbol))) < 0 \<Longrightarrow>
     addOrder type tickerSymbol quant p s = Inl OutOfBounds"
  by (cases type) (simp_all add: addOrder_def sideCount_def Let_def MAX_ORDERS_PER_SIDE_def)

lemma addOrder_accepted:
  assumes "uint tickerSymbol < NUM_TICKERS"
    and "0 \<le> sint (sideCount type (tickers s (unat tickerSymbol)))"
  shows "\<exists>s'. addOrder type tickerSymbol quant p s = Inr s' \<and>
     globalTimestamp s' = globalTimestamp s + 1 \<and>
     sideCount type (tickers s' (unat tickerSymbol)) = sideCount type (tickers s (unat tickerSymbol)) + 1 \<and>
     sideOrders type (tickers s' (unat tickerSymbol)) =
       (if sint (sideCount type (tickers s (unat tickerSymbol))) < MAX_ORDERS_PER_SIDE
        then (sideOrders type (tickers s (unat tickerSymbol)))
               (nat (sint (sideCount type (tickers s (unat tickerSymbol)))) \<mapsto>
                  new_Order type (ucast tickerSymbol) quant p (ucast (globalTimestamp s)))
        else sideOrders type (tickers s (unat tickerSymbol))) \<and>
     sideCount (\<not> type) (tickers s' (unat tickerSymbol)) = sideCount (\<not> type) (tickers s (unat tickerSymbol)) \<and>
     sideOrders (\<not> type) (tickers s' (unat tickerSymbol)) = sideOrders (\<not> type) (tickers s (unat tickerSymbol)) \<and>
     (\<forall>t. t \<noteq> unat tickerSymbol \<longrightarrow> tickers s' t = tickers s t)"
  using assms by (cases type) (auto simp: addOrder_def sideCount_def sideOrders_def Let_def)


lemma run_submits:
  assumes tk: "uint tickerSymbol < NUM_TICKERS"
    and c0: "sideCount type (tickers s (unat tickerSymbol)) = 0"
  shows "length xs \<le> 2 ^ 31 \<Longrightarrow>
    \<exists>s'. run (submits type tickerSymbol xs) s out = Some (Inr (s', out)) \<and>
      globalTimestamp s' = globalTimestamp s + of_nat (length xs) \<and>
      sideCount type (tickers s' (unat tickerSymbol)) = of_nat (length xs) \<and>
      (\<forall>k. sideOrders type (tickers s' (unat tickerSymbol)) k =
         (if k < length xs \<and> k < 1024
          then Some (new_Order type (ucast tickerSymbol) (fst (xs ! k)) (snd (xs ! k))
                       (ucast (globalTimestamp s + of_nat k)))
          else sideOrders type (tickers s (unat tickerSymbol)) k)) \<and>
      sideCount (\<not> type) (tickers s' (unat tickerSymbol)) = sideCount (\<not> type) (tickers s (unat tickerSymbol)) \<and>
      sideOrders (\<not> type) (tickers s' (unat tickerSymbol)) = sideOrders (\<not> type) (tickers s (unat tickerSymbol)) \<and>
      (\<forall>t. t \<noteq> unat tickerSymbol \<longrightarrow> tickers s' t = tickers s t)"
proof (induction xs rule: rev_induct)
  case Nil
  with c0 show ?case by (simp add: submits_def)
next
  case (snoc x xs)
  let ?t = "unat tickerSymbol"
  let ?n = "length xs"
  from snoc.prems have n: "?n < 2 ^ 31" by simp
  then have "?n \<le> 2 ^ 31" by simp
  from snoc.IH[OF this] obtain s1 where
    r1: "run (submits type tickerSymbol xs) s out = Some (Inr (s1, out))"
    and g1: "globalTimestamp s1 = globalTimestamp s + of_nat ?n"
    and c1: "sideCount type (tickers s1 ?t) = of_nat ?n"
    and o1: "\<forall>k. sideOrders type (tickers s1 ?t) k =
         (if k < ?n \<and> k < 1024
          then Some (new_Order type (ucast tickerSymbol) (fst (xs ! k)) (snd (xs ! k))
                       (ucast (globalTimestamp s + of_nat k)))
          else sideOrders type (tickers s ?t) k)"
    and f1: "sideCount (\<not> type) (tickers s1 ?t) = sideCount (\<not> type) (tickers s ?t)"
            "sideOrders (\<not> type) (tickers s1 ?t) = sideOrders (\<not> type) (tickers s ?t)"
            "\<forall>t. t \<noteq> ?t \<longrightarrow> tickers s1 t = tickers s t"
    by blast
  have si: "sint (sideCount type (tickers s1 ?t)) = int ?n"
    using n by (simp add: c1 sint_of_nat32)
  then have nonneg: "0 \<le> sint (sideCount type (tickers s1 ?t))" by simp
  obtain quant p where x: "x = (quant, p)" by (cases x)
  from addOrder_accepted[OF tk nonneg, of quant p] obtain s2 where
    a: "addOrder type tickerSymbol quant p s1 = Inr s2"
    and g2: "globalTimestamp s2 = globalTimestamp s1 + 1"
    and c2: "sideCount type (tickers s2 ?t) = sideCount type (tickers s1 ?t) + 1"
    and o2: "sideOrders type (tickers s2 ?t) =
       (if sint (sideCount type (tickers s1 ?t)) < MAX_ORDERS_PER_SIDE
        then (sideOrders type (tickers s1 ?t))
               (nat (sint (sideCount type (tickers s1 ?t))) \<mapsto>
                  new_Order type (ucast tickerSymbol) quant p (ucast (globalTimestamp s1)))
        else sideOrders type (tickers s1 ?t))"
    and f2: "sideCount (\<not> type) (tickers s2 ?t) = sideCount (\<not> type) (tickers s1 ?t)"
            "sideOrders (\<not> type) (tickers s2 ?t) = sideOrders (\<not> type) (tickers s1 ?t)"
            "\<forall>t. t \<noteq> ?t \<longrightarrow> tickers s2 t = tickers s1 t"
    by blast
  have run2: "run (submits type tickerSymbol (xs @ [x])) s out = Some (Inr (s2, out))"
    using r1 a x by (simp add: submits_def run_append)
  have G: "globalTimestamp s2 = globalTimestamp s + of_nat (length (xs @ [x]))"
    by (simp add: g2 g1)
  have C: "sideCount type (tickers s2 ?t) = of_nat (length (xs @ [x]))"
    by (simp add: c2 c1)
  have O: "sideOrders type (tickers s2 ?t) k =
         (if k < length (xs @ [x]) \<and> k < 1024
          then Some (new_Order type (ucast tickerSymbol) (fst ((xs @ [x]) ! k)) (snd ((xs @ [x]) ! k))
                       (ucast (globalTimestamp s + of_nat k)))
          else sideOrders type (tickers s ?t) k)" for k
  proof (cases "?n < 1024")
    case True
    then have "sideOrders type (tickers s2 ?t) =
        (sideOrders type (tickers s1 ?t))(?n \<mapsto> new_Order type (ucast tickerSymbol) quant p (ucast (globalTimestamp s1)))"
      by (simp add: o2 si MAX_ORDERS_PER_SIDE_def)
    then show ?thesis using o1 True x g1
      by (auto simp: nth_append less_Suc_eq)
  next
    case False
    then have "sideOrders type (tickers s2 ?t) = sideOrders type (tickers s1 ?t)"
      by (simp add: o2 si MAX_ORDERS_PER_SIDE_def)
    then show ?thesis using o1 False
      by (auto simp: nth_append)
  qed
  from run2 G C O f1 f2 show ?case by (intro exI[of _ s2]) simp
qed


lemma engine_init_count: "sideCount type (tickers engine_init t) = 0"
  by (simp add: sideCount_def engine_init_def TickerOrderBook_init_def)




section \<open>The bounds of the scans\<close>

text \<open>
  Claim C10 fails on the code. After 1025 buy submissions on instrument 0 the counter is 1025:
  a dropped submission still advances it. The next matching pass on instrument 0 snapshots
  1025 and its buy scan reads \<open>buyOrders[1024]\<close>, behind the array.
\<close>

theorem scan_reads_behind_array:
  "(case run (submits True 0 (replicate 1025 (1, 10))) engine_init [] of
      Some (Inr (s, out)) \<Rightarrow>
        sint (buyCount (tickers s 0)) = 1025 \<and>
        matchOrdersForTicker 0 s = Some (Inl OutOfBounds)
    | _ \<Rightarrow> False)"
proof -
  have tk: "uint (0 :: uint16) < NUM_TICKERS" by (simp add: NUM_TICKERS_def)
  have c0: "sideCount True (tickers engine_init (unat (0 :: uint16))) = 0"
    by (rule engine_init_count)
  have "length (replicate 1025 (1 :: uint32, 10 :: real)) \<le> 2 ^ 31" by simp
  from run_submits[OF tk c0 this, of "[]"] obtain s' where
    r: "run (submits True 0 (replicate 1025 (1, 10))) engine_init [] = Some (Inr (s', []))"
    and c: "sideCount True (tickers s' (unat (0 :: uint16))) = of_nat (length (replicate 1025 (1 :: uint32, 10 :: real)))"
    by blast
  from c have b: "sint (buyCount (tickers s' 0)) = 1025"
    by (simp add: sideCount_def)
  then have "MAX_ORDERS_PER_SIDE < sint (buyCount (tickers s' 0)) \<or> MAX_ORDERS_PER_SIDE < sint (sellCount (tickers s' 0))"
    by (simp add: MAX_ORDERS_PER_SIDE_def)
  from matchLoop_oob[OF this] have "matchOrdersForTicker 0 s' = Some (Inl OutOfBounds)"
    by (simp add: matchOrdersForTicker_def NUM_TICKERS_def)
  with r b show ?thesis by simp
qed

lemma timestamp_trunc: "unat (g :: uint64) + 1 < 2 ^ 32 \<Longrightarrow>
   unat (ucast (ucast (g + 1) :: uint32) :: uint64) = unat g + 1"
proof -
  assume a: "unat g + 1 < 2 ^ 32"
  then have "unat g + unat (1 :: uint64) < 2 ^ LENGTH(64)" by simp
  then have "unat (g + 1) = unat g + unat (1 :: uint64)"
    by (rule unat_add_lem[THEN iffD1])
  then have g1: "unat (g + 1) = unat g + 1" by simp
  have "unat (ucast (ucast (g + 1) :: uint32) :: uint64) = take_bit 32 (unat (g + 1))"
    by (simp add: unsigned_ucast_eq unsigned_take_bit_eq)
  also have "\<dots> = unat g + 1"
    using a by (simp add: g1 take_bit_nat_eq_self)
  finally show ?thesis .
qed

section \<open>Rejected submissions\<close>

text \<open>
  A call of \<open>addOrder\<close> with an instrument index of 1024 or more returns with every order
  book unchanged (no slot, no side counter), and with the global sequence counter advanced
  by one. The next order that is stored carries the low 32 bits of the number after the one
  it would have carried without the rejected call; as a number it is one above the value
  the rejected call consumed only while the counter is below \<open>2^32 - 1\<close>.
\<close>

theorem rejected_submission:
  assumes "NUM_TICKERS \<le> uint tickerSymbol"
  shows "\<exists>s'. addOrder type tickerSymbol quant p s = Inr s' \<and> tickers s' = tickers s \<and>
      globalTimestamp s' = globalTimestamp s + 1 \<and>
      (\<forall>type2 tk2 q2 p2.
          uint tk2 < NUM_TICKERS \<and>
          0 \<le> sint (sideCount type2 (tickers s (unat tk2))) \<and>
          sint (sideCount type2 (tickers s (unat tk2))) < MAX_ORDERS_PER_SIDE \<longrightarrow>
          (\<exists>s2 ord. addOrder type2 tk2 q2 p2 s' = Inr s2 \<and>
              sideOrders type2 (tickers s2 (unat tk2))
                (nat (sint (sideCount type2 (tickers s (unat tk2))))) = Some ord \<and>
              timestamp ord = ucast (ucast (globalTimestamp s + 1) :: uint32) \<and>
              (unat (globalTimestamp s) + 1 < 2 ^ 32 \<longrightarrow>
                 unat (timestamp ord) = unat (globalTimestamp s) + 1)) \<and>
          (\<exists>s0 ord. addOrder type2 tk2 q2 p2 s = Inr s0 \<and>
              sideOrders type2 (tickers s0 (unat tk2))
                (nat (sint (sideCount type2 (tickers s (unat tk2))))) = Some ord \<and>
              timestamp ord = ucast (ucast (globalTimestamp s) :: uint32)))"
proof -
  let ?s' = "s\<lparr>globalTimestamp := globalTimestamp s + 1\<rparr>"
  have a: "addOrder type tickerSymbol quant p s = Inr ?s'"
    using assms by (rule addOrder_rejected)
  have next_order: "\<exists>s2 ord. addOrder type2 tk2 q2 p2 ?s' = Inr s2 \<and>
              sideOrders type2 (tickers s2 (unat tk2))
                (nat (sint (sideCount type2 (tickers s (unat tk2))))) = Some ord \<and>
              timestamp ord = ucast (ucast (globalTimestamp s + 1) :: uint32) \<and>
              (unat (globalTimestamp s) + 1 < 2 ^ 32 \<longrightarrow>
                 unat (timestamp ord) = unat (globalTimestamp s) + 1)"
    if h: "uint tk2 < NUM_TICKERS"
          "0 \<le> sint (sideCount type2 (tickers s (unat tk2)))"
          "sint (sideCount type2 (tickers s (unat tk2))) < MAX_ORDERS_PER_SIDE"
    for type2 tk2 q2 p2
  proof -
    from h(2) have "0 \<le> sint (sideCount type2 (tickers ?s' (unat tk2)))" by simp
    from addOrder_accepted[OF h(1) this, of q2 p2] h(3) obtain s2 where
      s2: "addOrder type2 tk2 q2 p2 ?s' = Inr s2"
        "sideOrders type2 (tickers s2 (unat tk2)) =
          (sideOrders type2 (tickers s (unat tk2)))
               (nat (sint (sideCount type2 (tickers s (unat tk2)))) \<mapsto>
                  new_Order type2 (ucast tk2) q2 p2 (ucast (globalTimestamp s + 1)))"
      by auto
    have nowrap: "unat (ucast (ucast (globalTimestamp s + 1) :: uint32) :: uint64) = unat (globalTimestamp s) + 1"
      if "unat (globalTimestamp s) + 1 < 2 ^ 32"
      using that by (rule timestamp_trunc)
    show ?thesis
      using s2 nowrap
      by (intro exI[of _ s2] exI[of _ "new_Order type2 (ucast tk2) q2 p2 (ucast (globalTimestamp s + 1))"])
         (simp add: new_Order_def)
  qed
  have this_order: "\<exists>s0 ord. addOrder type2 tk2 q2 p2 s = Inr s0 \<and>
              sideOrders type2 (tickers s0 (unat tk2))
                (nat (sint (sideCount type2 (tickers s (unat tk2))))) = Some ord \<and>
              timestamp ord = ucast (ucast (globalTimestamp s) :: uint32)"
    if h: "uint tk2 < NUM_TICKERS"
          "0 \<le> sint (sideCount type2 (tickers s (unat tk2)))"
          "sint (sideCount type2 (tickers s (unat tk2))) < MAX_ORDERS_PER_SIDE"
    for type2 tk2 q2 p2
  proof -
    from addOrder_accepted[OF h(1) h(2), of q2 p2] h(3) obtain s0 where
      s0: "addOrder type2 tk2 q2 p2 s = Inr s0"
        "sideOrders type2 (tickers s0 (unat tk2)) =
          (sideOrders type2 (tickers s (unat tk2)))
               (nat (sint (sideCount type2 (tickers s (unat tk2)))) \<mapsto>
                  new_Order type2 (ucast tk2) q2 p2 (ucast (globalTimestamp s)))"
      by auto
    show ?thesis
      using s0
      by (intro exI[of _ s0] exI[of _ "new_Order type2 (ucast tk2) q2 p2 (ucast (globalTimestamp s))"])
         (simp add: new_Order_def)
  qed
  from a next_order this_order show ?thesis
    by (intro exI[of _ ?s']) simp
qed

theorem rejected_submission_witness:
  "NUM_TICKERS \<le> uint (2000 :: uint16) \<and>
   (\<exists>s'. addOrder True 2000 5 10 engine_init = Inr s' \<and> tickers s' = tickers engine_init \<and>
      globalTimestamp s' = 1 \<and>
      (\<exists>s2 ord. addOrder False 7 3 20 s' = Inr s2 \<and>
         sideOrders False (tickers s2 7) 0 = Some ord \<and> unat (timestamp ord) = 1) \<and>
      (\<exists>s0 ord. addOrder False 7 3 20 engine_init = Inr s0 \<and>
         sideOrders False (tickers s0 7) 0 = Some ord \<and> timestamp ord = 0))"
proof -
  have h: "NUM_TICKERS \<le> uint (2000 :: uint16)" by (simp add: NUM_TICKERS_def)
  from rejected_submission[OF h, of True 5 10 engine_init] obtain s' where
    s': "addOrder True 2000 5 10 engine_init = Inr s'" "tickers s' = tickers engine_init"
      "globalTimestamp s' = globalTimestamp engine_init + 1"
      "\<forall>type2 tk2 q2 p2.
          uint tk2 < NUM_TICKERS \<and>
          0 \<le> sint (sideCount type2 (tickers engine_init (unat tk2))) \<and>
          sint (sideCount type2 (tickers engine_init (unat tk2))) < MAX_ORDERS_PER_SIDE \<longrightarrow>
          (\<exists>s2 ord. addOrder type2 tk2 q2 p2 s' = Inr s2 \<and>
              sideOrders type2 (tickers s2 (unat tk2))
                (nat (sint (sideCount type2 (tickers engine_init (unat tk2))))) = Some ord \<and>
              timestamp ord = ucast (ucast (globalTimestamp engine_init + 1) :: uint32) \<and>
              (unat (globalTimestamp engine_init) + 1 < 2 ^ 32 \<longrightarrow>
                 unat (timestamp ord) = unat (globalTimestamp engine_init) + 1)) \<and>
          (\<exists>s0 ord. addOrder type2 tk2 q2 p2 engine_init = Inr s0 \<and>
              sideOrders type2 (tickers s0 (unat tk2))
                (nat (sint (sideCount type2 (tickers engine_init (unat tk2))))) = Some ord \<and>
              timestamp ord = ucast (ucast (globalTimestamp engine_init) :: uint32))"
    by blast
  have pre: "uint (7 :: uint16) < NUM_TICKERS \<and>
          0 \<le> sint (sideCount False (tickers engine_init (unat (7 :: uint16)))) \<and>
          sint (sideCount False (tickers engine_init (unat (7 :: uint16)))) < MAX_ORDERS_PER_SIDE"
    by (simp add: engine_init_count NUM_TICKERS_def MAX_ORDERS_PER_SIDE_def)
  from s'(4)[rule_format, OF pre, of 3 20] have
    "(\<exists>s2 ord. addOrder False 7 3 20 s' = Inr s2 \<and>
         sideOrders False (tickers s2 7) 0 = Some ord \<and> unat (timestamp ord) = 1) \<and>
      (\<exists>s0 ord. addOrder False 7 3 20 engine_init = Inr s0 \<and>
         sideOrders False (tickers s0 7) 0 = Some ord \<and> timestamp ord = 0)"
    by (simp add: engine_init_count) (simp add: engine_init_def, blast)
  moreover have "globalTimestamp s' = 1" using s'(3) by (simp add: engine_init_def)
  ultimately show ?thesis using h s'(1,2) by blast
qed

lemma run_rejected:
  assumes "NUM_TICKERS \<le> uint tickerSymbol"
  shows "run (replicate n (Submit type tickerSymbol quant p)) s out
           = Some (Inr (s\<lparr>globalTimestamp := globalTimestamp s + of_nat n\<rparr>, out))"
proof (induction n arbitrary: s)
  case 0
  then show ?case by simp
next
  case (Suc n)
  show ?case
    by (simp add: addOrder_rejected[OF assms] Suc add.assoc add.commute)
qed

text \<open>
  Claim C7 fails on the code. The constructor of \<open>Order\<close> takes the sequence number as
  \<open>uint32_t\<close>, while the counter and the field are 64 bits wide. After 4294967294 calls
  (here rejected ones, which only advance the counter), an accepted order is stored with
  the number 4294967294, a rejected call consumes 4294967295, and the next accepted order
  draws 4294967296 and is stored with the number 0: smaller, not larger.
\<close>

theorem stored_sequence_number_wraps:
  "(case run (replicate 4294967294 (Submit True 2000 1 1) @
              [Submit True 0 1 10, Submit True 2000 1 1, Submit True 0 1 10]) engine_init [] of
      Some (Inr (s, out)) \<Rightarrow>
        map_option timestamp (buyOrders (tickers s 0) 0) = Some 4294967294 \<and>
        map_option timestamp (buyOrders (tickers s 0) 1) = Some 0 \<and>
        globalTimestamp s = 4294967297
    | _ \<Rightarrow> False)"
proof -
  have rej: "NUM_TICKERS \<le> uint (2000 :: uint16)" by (simp add: NUM_TICKERS_def)
  have 1: "run (replicate 4294967294 (Submit True 2000 1 1)) engine_init []
      = Some (Inr (engine_init\<lparr>globalTimestamp := 4294967294\<rparr>, []))"
    using run_rejected[OF rej, of 4294967294 True 1 1 engine_init "[]"]
    by (simp add: engine_init_def)
  show ?thesis
    by (simp only: run_append 1) (simp add: eval_defs)
qed

section \<open>The best prices and the initial values of the scans\<close>

text \<open>Within the sentinels the scans select as specified.\<close>

lemma scanSell_selects_lowest:
  assumes "scanSell book n 0 None 1000000000 = Inr (best, h)"
    and "\<forall>k ord. int k < n \<and> holds (sellOrders book) k ord \<longrightarrow> price ord < 1000000000"
  shows "(best = None \<longrightarrow> (\<forall>k ord. int k < n \<longrightarrow> \<not> holds (sellOrders book) k ord)) \<and>
         (\<forall>j. best = Some j \<longrightarrow>
            (\<exists>ord. int j < n \<and> holds (sellOrders book) j ord \<and> h = price ord \<and>
               (\<forall>k ord'. int k < n \<and> holds (sellOrders book) k ord' \<longrightarrow>
                  price ord \<le> price ord' \<and> (k < j \<longrightarrow> price ord < price ord'))))"
proof (cases best)
  case None
  from scanSell_None[OF assms(1)[unfolded None]] assms(2) show ?thesis
    using None by fastforce
next
  case (Some j)
  from scanSell_Some[OF assms(1)[unfolded Some]] show ?thesis
    using Some by auto
qed

lemma scanBuy_selects_highest:
  assumes "scanBuy book n 0 None (- 1) = Inr (best, h)"
    and "\<forall>k ord. int k < n \<and> holds (buyOrders book) k ord \<longrightarrow> - 1 < price ord"
  shows "(best = None \<longrightarrow> (\<forall>k ord. int k < n \<longrightarrow> \<not> holds (buyOrders book) k ord)) \<and>
         (\<forall>j. best = Some j \<longrightarrow>
            (\<exists>ord. int j < n \<and> holds (buyOrders book) j ord \<and> h = price ord \<and>
               (\<forall>k ord'. int k < n \<and> holds (buyOrders book) k ord' \<longrightarrow>
                  price ord' \<le> price ord \<and> (k < j \<longrightarrow> price ord' < price ord))))"
proof (cases best)
  case None
  from scanBuy_None[OF assms(1)[unfolded None]] assms(2) show ?thesis
    using None by fastforce
next
  case (Some j)
  from scanBuy_Some[OF assms(1)[unfolded Some]] show ?thesis
    using Some by auto
qed

text \<open>
  Claim C2 fails on the code. The sell scan starts from \<open>lowestSellPrice = 1e9\<close> and takes an
  order only when its price is below the best so far. A single resting sell order of one
  share at price \<open>1e9\<close> is the lowest-priced eligible sell of its book, and the scan selects
  no order.
\<close>

theorem sell_at_sentinel_price_not_selected:
  "(case run [Submit False 0 1 1000000000] engine_init [] of
      Some (Inr (s, out)) \<Rightarrow>
        sint (sellCount (tickers s 0)) = 1 \<and>
        holds (sellOrders (tickers s 0)) 0 (new_Order False 0 1 1000000000 0) \<and>
        scanSell (tickers s 0) (sint (sellCount (tickers s 0))) 0 None 1000000000
          = Inr (None, 1000000000)
    | _ \<Rightarrow> False)"
  by (simp add: eval_defs holds_def)

text \<open>
  Claim C3 fails on the code. The buy scan starts from \<open>highestBuyPrice = -1.0\<close>. A single
  resting buy order of one share at price \<open>-1.0\<close> is the highest-priced eligible buy of its
  book, and the scan selects no order.
\<close>

theorem buy_at_sentinel_price_not_selected:
  "(case run [Submit True 0 1 (- 1)] engine_init [] of
      Some (Inr (s, out)) \<Rightarrow>
        sint (buyCount (tickers s 0)) = 1 \<and>
        holds (buyOrders (tickers s 0)) 0 (new_Order True 0 1 (- 1) 0) \<and>
        scanBuy (tickers s 0) (sint (buyCount (tickers s 0))) 0 None (- 1)
          = Inr (None, - 1)
    | _ \<Rightarrow> False)"
  by (simp add: eval_defs holds_def)

section \<open>The book after a pass\<close>

text \<open>
  A pass that returns leaves a book whose next iteration is the \<open>break\<close>. When the prices
  are in range, that book is not crossed.
\<close>

lemma matchIteration_break_no_cross:
  assumes brk: "matchIteration ticker book = Inr None" and rng: "prices_in_range book"
  shows "\<not> crossed book"
proof
  assume "crossed book"
  then obtain i j bo so where x:
    "int i < sint (buyCount book)" "int j < sint (sellCount book)"
    "holds (buyOrders book) i bo" "holds (sellOrders book) j so" "price so \<le> price bo"
    unfolding crossed_def by blast
  from rng x(3,4) have pr: "- 1 < price bo" "price so < 1000000000"
    unfolding prices_in_range_def by blast+
  from brk obtain bb hb where sb: "scanBuy book (sint (buyCount book)) 0 None (- 1) = Inr (bb, hb)"
    by (auto simp: matchIteration_def split: sum.splits)
  from brk sb obtain bs hs where ss: "scanSell book (sint (sellCount book)) 0 None 1000000000 = Inr (bs, hs)"
    by (auto simp: matchIteration_def split: sum.splits)
  show False
  proof (cases bb)
    case None
    from scanBuy_None[OF sb[unfolded None]] x(1,3) have "price bo \<le> - 1" by blast
    with pr show False by simp
  next
    case b: (Some b)
    show False
    proof (cases bs)
      case None
      from scanSell_None[OF ss[unfolded None]] x(2,4) have "1000000000 \<le> price so" by blast
      with pr show False by simp
    next
      case a: (Some a)
      from scanBuy_Some[OF sb[unfolded b]] obtain bo' where
        bo': "holds (buyOrders book) b bo'" "price bo' = hb"
          "\<forall>k ord'. int k < sint (buyCount book) \<and> holds (buyOrders book) k ord' \<longrightarrow> price ord' \<le> hb \<and> (k < b \<longrightarrow> price ord' < hb)"
        by blast
      from scanSell_Some[OF ss[unfolded a]] obtain so' where
        so': "holds (sellOrders book) a so'" "price so' = hs"
          "\<forall>k ord'. int k < sint (sellCount book) \<and> holds (sellOrders book) k ord' \<longrightarrow> hs \<le> price ord' \<and> (k < a \<longrightarrow> hs < price ord')"
        by blast
      from bo'(1) so'(1) have sl: "buyOrders book b = Some bo'" "sellOrders book a = Some so'"
        by (simp_all add: holds_def)
      from brk sb ss a b sl have "price bo' < price so'"
        by (auto simp: matchIteration_def deref_def Let_def split: if_splits)
      moreover from bo'(3) x(1,3) have "price bo \<le> hb" by blast
      moreover from so'(3) x(2,4) have "hs \<le> price so" by blast
      ultimately show False using x(5) bo'(2) so'(2) by simp
    qed
  qed
qed

lemma cross_holds_buy:
  assumes "(book', tr) = cross ticker book b bo a so" "holds (buyOrders book) b bo"
    and "holds (buyOrders book') k ord'"
  shows "\<exists>ord. holds (buyOrders book) k ord \<and> price ord = price ord'"
  using assms by (auto simp: cross_def holds_def split: if_splits)

lemma cross_holds_sell:
  assumes "(book', tr) = cross ticker book b bo a so" "holds (sellOrders book) a so"
    and "holds (sellOrders book') k ord'"
  shows "\<exists>ord. holds (sellOrders book) k ord \<and> price ord = price ord'"
  using assms by (auto simp: cross_def holds_def split: if_splits)

lemma matchIteration_prices_in_range:
  assumes it: "matchIteration ticker book = Inr (Some (book', tr))" and rng: "prices_in_range book"
  shows "prices_in_range book'"
proof -
  from matchIteration_cross[OF it] obtain b a bo so where
    x: "holds (buyOrders book) b bo" "holds (sellOrders book) a so"
       "(book', tr) = cross ticker book b bo a so"
    by blast
  show ?thesis
    unfolding prices_in_range_def
  proof (intro allI conjI impI)
    fix k ord
    assume "holds (buyOrders book') k ord"
    from cross_holds_buy[OF x(3) x(1) this] rng show "- 1 < price ord"
      unfolding prices_in_range_def by metis
  next
    fix k ord
    assume "holds (sellOrders book') k ord"
    from cross_holds_sell[OF x(3) x(2) this] rng show "price ord < 1000000000"
      unfolding prices_in_range_def by metis
  qed
qed

lemma matchLoop_no_cross:
  assumes "matchLoop ticker book out = Some (Inr (book', out'))" and "prices_in_range book"
  shows "\<not> crossed book'"
proof -
  have "prices_in_range book' \<and> matchIteration ticker book' = Inr None"
    by (rule matchLoop_rule[where I = "\<lambda>b o1. prices_in_range b", OF assms(1) assms(2)])
       (rule matchIteration_prices_in_range)
  then show ?thesis using matchIteration_break_no_cross by blast
qed

lemma matchOrdersForTicker_no_cross:
  assumes "matchOrdersForTicker ticker s = Some (Inr (s', out))"
    and "prices_in_range (tickers s (unat ticker))"
  shows "\<not> crossed (tickers s' (unat ticker))"
proof -
  from assms(1) obtain book' where
    "matchLoop ticker (tickers s (unat ticker)) [] = Some (Inr (book', out))"
    "s' = s\<lparr>tickers := (tickers s)(unat ticker := book')\<rparr>"
    by (auto simp: matchOrdersForTicker_def split: if_splits option.splits sum.splits)
  with matchLoop_no_cross[OF this(1) assms(2)] show ?thesis by simp
qed

text \<open>
  Claim C1 fails on the code. With a buy of one share at \<open>2e9\<close> and a sell of one share at
  \<open>1e9\<close> on instrument 0, the sell scan selects no order, the pass returns without a trade,
  and both orders rest with quantity left and the buy price above the sell price.
\<close>

theorem cross_left_at_sentinel_price:
  "(case run [Submit True 0 1 2000000000, Submit False 0 1 1000000000, Match 0] engine_init [] of
      Some (Inr (s, out)) \<Rightarrow>
        out = [] \<and>
        holds (buyOrders (tickers s 0)) 0 (new_Order True 0 1 2000000000 0) \<and>
        holds (sellOrders (tickers s 0)) 0 (new_Order False 0 1 1000000000 1) \<and>
        crossed (tickers s 0)
    | _ \<Rightarrow> False)"
proof -
  have "\<exists>s. run [Submit True 0 1 2000000000, Submit False 0 1 1000000000, Match 0] engine_init []
          = Some (Inr (s, [])) \<and>
        sint (buyCount (tickers s 0)) = 1 \<and> sint (sellCount (tickers s 0)) = 1 \<and>
        holds (buyOrders (tickers s 0)) 0 (new_Order True 0 1 2000000000 0) \<and>
        holds (sellOrders (tickers s 0)) 0 (new_Order False 0 1 1000000000 1)"
    by (simp add: eval_defs holds_def)
  then obtain s where s:
    "run [Submit True 0 1 2000000000, Submit False 0 1 1000000000, Match 0] engine_init []
          = Some (Inr (s, []))"
    "sint (buyCount (tickers s 0)) = 1" "sint (sellCount (tickers s 0)) = 1"
    "holds (buyOrders (tickers s 0)) 0 (new_Order True 0 1 2000000000 0)"
    "holds (sellOrders (tickers s 0)) 0 (new_Order False 0 1 1000000000 1)"
    by blast
  have "crossed (tickers s 0)"
    unfolding crossed_def
    using s(2-5)
    by (intro exI[of _ "0::nat"] exI[of _ "new_Order True 0 1 2000000000 0"]
        exI[of _ "new_Order False 0 1 1000000000 1"])
       (simp add: new_Order_def)
  with s show ?thesis by simp
qed



section \<open>The quantity of an order over a run\<close>

lemma sint_succ32:
  fixes c :: "32 word"
  assumes "0 \<le> sint c"
  shows "sint (c + 1) = sint c + 1 \<or> sint (c + 1) < 0"
proof (cases "sint c + 1 < 2 ^ 31")
  case True
  have "sint (c + 1) = signed_take_bit 31 (sint c + 1)"
    by (simp add: sint_word_ariths)
  also have "\<dots> = sint c + 1"
    using True assms by (intro signed_take_bit_int_eq_self) simp_all
  finally show ?thesis by simp
next
  case False
  moreover have "sint c < 2 ^ 31" using sint_lt[of c] by simp
  ultimately have "sint c = 2 ^ 31 - 1" by simp
  then have "word_of_int (sint c) = (word_of_int (2 ^ 31 - 1) :: 32 word)" by simp
  then have "c = 2147483647" by simp
  then show ?thesis by simp
qed

lemma word_sub_min_le:
  fixes x y :: "'a::len word"
  shows "x - min x y \<le> x" "y - min x y \<le> y"
  by (simp_all add: word_sub_le)


lemma slot_evolves_refl: "slot_evolves x x"
  by (cases x) (simp_all add: slot_evolves_def)

lemma slot_evolves_trans: "slot_evolves x y \<Longrightarrow> slot_evolves y z \<Longrightarrow> slot_evolves x z"
  by (cases x) (auto simp: slot_evolves_def)

lemma slot_evolves_None: "slot_evolves None y"
  by (simp add: slot_evolves_def)

lemma evolves_refl: "evolves s s"
  by (simp add: evolves_def slot_evolves_refl)

lemma evolves_trans: "evolves s s1 \<Longrightarrow> evolves s1 s2 \<Longrightarrow> evolves s s2"
  unfolding evolves_def using slot_evolves_trans by blast

lemma claimed_only_init: "claimed_only engine_init"
  by (simp add: claimed_only_def engine_init_def TickerOrderBook_init_def sideOrders_def)

lemma addOrder_evolves:
  assumes cl: "claimed_only s" and a: "addOrder type tickerSymbol quant p s = Inr s'"
  shows "claimed_only s' \<and> evolves s s'"
proof (cases "NUM_TICKERS \<le> uint tickerSymbol")
  case True
  with a have "s' = s\<lparr>globalTimestamp := globalTimestamp s + 1\<rparr>"
    by (simp add: addOrder_rejected)
  with cl show ?thesis by (simp add: claimed_only_def evolves_def slot_evolves_refl)
next
  case False
  let ?t = "unat tickerSymbol"
  let ?c = "sint (sideCount type (tickers s ?t))"
  from False have tk: "uint tickerSymbol < NUM_TICKERS" by simp
  have nonneg: "0 \<le> ?c"
  proof (rule ccontr)
    assume "\<not> 0 \<le> ?c"
    then have "addOrder type tickerSymbol quant p s = Inl OutOfBounds"
      by (intro addOrder_wrapped[OF tk]) simp
    with a show False by simp
  qed
  from addOrder_accepted[OF tk nonneg, of quant p] a have
    c': "sideCount type (tickers s' ?t) = sideCount type (tickers s ?t) + 1"
    and o': "sideOrders type (tickers s' ?t) =
       (if ?c < MAX_ORDERS_PER_SIDE
        then (sideOrders type (tickers s ?t))
               (nat ?c \<mapsto> new_Order type (ucast tickerSymbol) quant p (ucast (globalTimestamp s)))
        else sideOrders type (tickers s ?t))"
    and f: "sideCount (\<not> type) (tickers s' ?t) = sideCount (\<not> type) (tickers s ?t)"
      "sideOrders (\<not> type) (tickers s' ?t) = sideOrders (\<not> type) (tickers s ?t)"
      "\<forall>t. t \<noteq> ?t \<longrightarrow> tickers s' t = tickers s t"
    by auto
  have free: "sideOrders type (tickers s ?t) (nat ?c) = None"
  proof (rule ccontr)
    assume "sideOrders type (tickers s ?t) (nat ?c) \<noteq> None"
    with cl have "?c < 0 \<or> int (nat ?c) < ?c" unfolding claimed_only_def by blast
    with nonneg show False by simp
  qed
  have cnt: "sint (sideCount type (tickers s' ?t)) = ?c + 1 \<or> sint (sideCount type (tickers s' ?t)) < 0"
    unfolding c' using nonneg by (rule sint_succ32)
  have slot: "slot_evolves (sideOrders ty (tickers s t) i) (sideOrders ty (tickers s' t) i)" for ty t i
  proof (cases "t = ?t")
    case False
    with f(3) show ?thesis by (simp add: slot_evolves_refl)
  next
    case t: True
    show ?thesis
    proof (cases "ty = type")
      case False
      then have "ty = (\<not> type)" by simp
      with f(2) t show ?thesis by (simp add: slot_evolves_refl)
    next
      case True
      show ?thesis
      proof (cases "?c < MAX_ORDERS_PER_SIDE \<and> i = nat ?c")
        case True
        with free t \<open>ty = type\<close> show ?thesis by (simp add: slot_evolves_None)
      next
        case False
        with o' have "sideOrders type (tickers s' ?t) i = sideOrders type (tickers s ?t) i"
          by (auto split: if_splits)
        with t \<open>ty = type\<close> show ?thesis by (simp add: slot_evolves_refl)
      qed
    qed
  qed
  have claimed: "sint (sideCount ty (tickers s' t)) < 0 \<or> int i < sint (sideCount ty (tickers s' t))"
    if occ: "sideOrders ty (tickers s' t) i \<noteq> None" for ty t i
  proof (cases "t = ?t")
    case False
    with f(3) occ cl show ?thesis unfolding claimed_only_def by simp
  next
    case t: True
    show ?thesis
    proof (cases "ty = type")
      case False
      then have "ty = (\<not> type)" by simp
      with f(1,2) t occ cl show ?thesis unfolding claimed_only_def by simp
    next
      case True
      have "int i \<le> ?c"
      proof (cases "?c < MAX_ORDERS_PER_SIDE \<and> i = nat ?c")
        case True
        with nonneg show ?thesis by simp
      next
        case False
        with o' have "sideOrders type (tickers s' ?t) i = sideOrders type (tickers s ?t) i"
          by (auto split: if_splits)
        with occ t True have "sideOrders type (tickers s ?t) i \<noteq> None" by simp
        with cl have "?c < 0 \<or> int i < ?c" unfolding claimed_only_def by blast
        with nonneg show ?thesis by simp
      qed
      with cnt t True show ?thesis by auto
    qed
  qed
  from slot claimed show ?thesis
    unfolding evolves_def claimed_only_def by blast
qed


lemma book_evolves_refl: "book_evolves b b"
  by (simp add: book_evolves_def slot_evolves_refl)

lemma book_evolves_trans: "book_evolves b b1 \<Longrightarrow> book_evolves b1 b2 \<Longrightarrow> book_evolves b b2"
  unfolding book_evolves_def using slot_evolves_trans by (metis (no_types, lifting))

lemma slot_evolves_upd:
  "x = Some ord \<Longrightarrow> q \<le> quantity ord \<Longrightarrow> slot_evolves x (Some (ord\<lparr>quantity := q\<rparr>))"
  by (simp add: slot_evolves_def)

lemma cross_book_evolves:
  assumes c: "(book', tr) = cross ticker book b bo a so"
    and hb: "holds (buyOrders book) b bo" and ha: "holds (sellOrders book) a so"
  shows "book_evolves book book'"
proof -
  let ?m = "min (quantity bo) (quantity so)"
  have B: "buyOrders book' = (buyOrders book)(b \<mapsto> bo\<lparr>quantity := quantity bo - ?m\<rparr>)"
    and S: "sellOrders book' = (sellOrders book)(a \<mapsto> so\<lparr>quantity := quantity so - ?m\<rparr>)"
    and C: "buyCount book' = buyCount book" "sellCount book' = sellCount book"
    using c by (simp_all add: cross_def)
  from hb ha have sl: "buyOrders book b = Some bo" "sellOrders book a = Some so"
    by (simp_all add: holds_def)
  have eb: "slot_evolves (buyOrders book i) (buyOrders book' i)" for i
    using sl(1) word_sub_min_le(1)[of "quantity bo" "quantity so"]
    by (cases "i = b") (simp_all add: B slot_evolves_upd slot_evolves_refl)
  have es: "slot_evolves (sellOrders book i) (sellOrders book' i)" for i
    using sl(2) word_sub_min_le(2)[of "quantity so" "quantity bo"]
    by (cases "i = a") (simp_all add: S slot_evolves_upd slot_evolves_refl)
  have nb: "buyOrders book' i = None \<longleftrightarrow> buyOrders book i = None" for i
    using sl(1) by (simp add: B)
  have ns: "sellOrders book' i = None \<longleftrightarrow> sellOrders book i = None" for i
    using sl(2) by (simp add: S)
  from C eb es nb ns show ?thesis unfolding book_evolves_def by blast
qed

lemma matchIteration_book_evolves:
  assumes "matchIteration ticker book = Inr (Some (book', tr))"
  shows "book_evolves book book'"
  using matchIteration_cross[OF assms] cross_book_evolves by blast

lemma matchLoop_book_evolves:
  assumes "matchLoop ticker book out = Some (Inr (book', out'))"
  shows "book_evolves book book'"
proof -
  have "book_evolves book book' \<and> matchIteration ticker book' = Inr None"
  proof (rule matchLoop_rule[where I = "\<lambda>b o1. book_evolves book b", OF assms])
    show "book_evolves book book" by (rule book_evolves_refl)
  next
    fix b o1 b1 tr
    assume "book_evolves book b" "matchIteration ticker b = Inr (Some (b1, tr))"
    then show "book_evolves book b1"
      using matchIteration_book_evolves book_evolves_trans by blast
  qed
  then show ?thesis ..
qed

lemma book_evolves_side:
  assumes "book_evolves b b'"
  shows "sideCount type b' = sideCount type b"
    and "slot_evolves (sideOrders type b i) (sideOrders type b' i)"
    and "sideOrders type b' i = None \<longleftrightarrow> sideOrders type b i = None"
  using assms by (simp_all add: book_evolves_def sideCount_def sideOrders_def)

lemma matchOrdersForTicker_evolves:
  assumes cl: "claimed_only s" and m: "matchOrdersForTicker ticker s = Some (Inr (s', out))"
  shows "claimed_only s' \<and> evolves s s'"
proof -
  let ?t = "unat ticker"
  from m obtain book' where
    l: "matchLoop ticker (tickers s ?t) [] = Some (Inr (book', out))"
    and s': "s' = s\<lparr>tickers := (tickers s)(?t := book')\<rparr>"
    by (auto simp: matchOrdersForTicker_def split: if_splits option.splits sum.splits)
  note be = book_evolves_side[OF matchLoop_book_evolves[OF l]]
  have ev: "slot_evolves (sideOrders ty (tickers s t) i) (sideOrders ty (tickers s' t) i)" for ty t i
    using be(2) by (cases "t = ?t") (simp_all add: s' slot_evolves_refl)
  have claimed: "sint (sideCount ty (tickers s' t)) < 0 \<or> int i < sint (sideCount ty (tickers s' t))"
    if occ: "sideOrders ty (tickers s' t) i \<noteq> None" for ty t i
  proof (cases "t = ?t")
    case False
    with occ cl show ?thesis unfolding claimed_only_def by (simp add: s')
  next
    case True
    with occ have "sideOrders ty (tickers s ?t) i \<noteq> None" using be(3) by (simp add: s')
    with cl have "sint (sideCount ty (tickers s ?t)) < 0 \<or> int i < sint (sideCount ty (tickers s ?t))"
      unfolding claimed_only_def by blast
    with True show ?thesis using be(1) by (simp add: s')
  qed
  from ev claimed show ?thesis unfolding evolves_def claimed_only_def by blast
qed

lemma run_evolves:
  "claimed_only s \<Longrightarrow> run ops s out = Some (Inr (s', out')) \<Longrightarrow> claimed_only s' \<and> evolves s s'"
proof (induction ops arbitrary: s out)
  case Nil
  then show ?case by (simp add: evolves_refl)
next
  case (Cons x ops)
  show ?case
  proof (cases x)
    case (Submit ty tk q p)
    with Cons.prems(2) obtain s1 where
      a: "addOrder ty tk q p s = Inr s1" and r: "run ops s1 out = Some (Inr (s', out'))"
      by (auto split: sum.splits)
    from addOrder_evolves[OF Cons.prems(1) a] have 1: "claimed_only s1" "evolves s s1" by simp_all
    from Cons.IH[OF 1(1) r] 1(2) show ?thesis using evolves_trans by blast
  next
    case (Match tk)
    with Cons.prems(2) obtain s1 tr where
      a: "matchOrdersForTicker tk s = Some (Inr (s1, tr))"
      and r: "run ops s1 (out @ tr) = Some (Inr (s', out'))"
      by (auto split: sum.splits option.splits)
    from matchOrdersForTicker_evolves[OF Cons.prems(1) a] have 1: "claimed_only s1" "evolves s s1"
      by simp_all
    from Cons.IH[OF 1(1) r] 1(2) show ?thesis using evolves_trans by blast
  qed
qed


lemma cross_zero_untouched:
  assumes c: "(book', tr) = cross ticker book b bo a so"
    and hb: "holds (buyOrders book) b bo" and ha: "holds (sellOrders book) a so"
  shows "buyOrders book k = Some zo \<and> quantity zo = 0 \<longrightarrow> buyOrders book' k = Some zo"
    and "sellOrders book k = Some zo \<and> quantity zo = 0 \<longrightarrow> sellOrders book' k = Some zo"
  using assms by (auto simp: cross_def holds_def)

lemma matchIteration_zero_untouched:
  assumes "matchIteration ticker book = Inr (Some (book', tr))"
  shows "(buyOrders book k = Some zo \<and> quantity zo = 0 \<longrightarrow> buyOrders book' k = Some zo) \<and>
         (sellOrders book k = Some zo \<and> quantity zo = 0 \<longrightarrow> sellOrders book' k = Some zo)"
  using matchIteration_cross[OF assms] cross_zero_untouched by metis

text \<open>
  Take any sequence of \<open>addOrder\<close> and \<open>matchOrdersForTicker\<close> calls from the start of
  the process that stays within the arrays, and any order resting in a slot at some point
  of it. At every later point the same slot holds the same order (side,
  instrument, price and sequence number unchanged), its quantity is not above the earlier
  one, read as an unsigned number, so it never increased and never wrapped below zero, and
  a quantity of zero stays zero. The scans select only orders with quantity above zero,
  and a cross leaves every order with quantity zero as it is.
\<close>

theorem quantity_never_increases:
  assumes "run ops1 engine_init [] = Some (Inr (s1, out1))"
    and "run ops2 s1 out1 = Some (Inr (s2, out2))"
    and "sideOrders type (tickers s1 t) i = Some ord"
  shows "(\<exists>ord'. sideOrders type (tickers s2 t) i = Some ord' \<and>
            isBuy ord' = isBuy ord \<and> tickerIndex ord' = tickerIndex ord \<and>
            price ord' = price ord \<and> timestamp ord' = timestamp ord \<and>
            unat (quantity ord') \<le> unat (quantity ord) \<and>
            (quantity ord = 0 \<longrightarrow> quantity ord' = 0)) \<and>
         (\<forall>book n j h. scanBuy book n 0 None (- 1) = Inr (Some j, h) \<longrightarrow>
            (\<exists>sel. buyOrders book j = Some sel \<and> 0 < quantity sel)) \<and>
         (\<forall>book n j h. scanSell book n 0 None 1000000000 = Inr (Some j, h) \<longrightarrow>
            (\<exists>sel. sellOrders book j = Some sel \<and> 0 < quantity sel)) \<and>
         (\<forall>ticker book book' tr k zo.
            matchIteration ticker book = Inr (Some (book', tr)) \<longrightarrow>
              (buyOrders book k = Some zo \<and> quantity zo = 0 \<longrightarrow> buyOrders book' k = Some zo) \<and>
              (sellOrders book k = Some zo \<and> quantity zo = 0 \<longrightarrow> sellOrders book' k = Some zo))"
proof (intro conjI allI impI)
  from run_evolves[OF claimed_only_init assms(1)] have "claimed_only s1" by simp
  from run_evolves[OF this assms(2)] have "evolves s1 s2" by simp
  then have "slot_evolves (sideOrders type (tickers s1 t) i) (sideOrders type (tickers s2 t) i)"
    unfolding evolves_def by blast
  with assms(3) obtain ord' where
    o: "sideOrders type (tickers s2 t) i = Some ord'" "isBuy ord' = isBuy ord"
      "tickerIndex ord' = tickerIndex ord" "price ord' = price ord"
      "timestamp ord' = timestamp ord" "quantity ord' \<le> quantity ord"
    by (auto simp: slot_evolves_def)
  from o(6) have "unat (quantity ord') \<le> unat (quantity ord)" by (simp add: word_le_nat_alt)
  moreover from o(6) have "quantity ord = 0 \<longrightarrow> quantity ord' = 0" by auto
  ultimately show "\<exists>ord'. sideOrders type (tickers s2 t) i = Some ord' \<and>
            isBuy ord' = isBuy ord \<and> tickerIndex ord' = tickerIndex ord \<and>
            price ord' = price ord \<and> timestamp ord' = timestamp ord \<and>
            unat (quantity ord') \<le> unat (quantity ord) \<and>
            (quantity ord = 0 \<longrightarrow> quantity ord' = 0)"
    using o(1-5) by blast
next
  fix book n j h
  assume "scanBuy book n 0 None (- 1) = Inr (Some j, h)"
  from scanBuy_Some[OF this] show "\<exists>sel. buyOrders book j = Some sel \<and> 0 < quantity sel"
    unfolding holds_def by blast
next
  fix book n j h
  assume "scanSell book n 0 None 1000000000 = Inr (Some j, h)"
  from scanSell_Some[OF this] show "\<exists>sel. sellOrders book j = Some sel \<and> 0 < quantity sel"
    unfolding holds_def by blast
next
  fix ticker book book' tr k zo
  assume it: "matchIteration ticker book = Inr (Some (book', tr))"
  { assume "buyOrders book k = Some zo \<and> quantity zo = 0"
    with matchIteration_zero_untouched[OF it, of k zo] show "buyOrders book' k = Some zo" by blast }
  { assume "sellOrders book k = Some zo \<and> quantity zo = 0"
    with matchIteration_zero_untouched[OF it, of k zo] show "sellOrders book' k = Some zo" by blast }
qed

theorem quantity_never_increases_witness:
  "\<exists>s1 s2 out2.
     run [Submit True 3 30 100, Submit False 3 10 90, Submit False 3 10 95] engine_init []
       = Some (Inr (s1, [])) \<and>
     run [Match 3] s1 [] = Some (Inr (s2, out2)) \<and>
     sideOrders True (tickers s1 3) 0 = Some (new_Order True 3 30 100 0) \<and>
     (\<exists>ord'. sideOrders True (tickers s2 3) 0 = Some ord' \<and>
        price ord' = price (new_Order True 3 30 100 0) \<and>
        unat (quantity ord') \<le> unat (quantity (new_Order True 3 30 100 0)))"
proof -
  let ?ops1 = "[Submit True 3 30 100, Submit False 3 10 90, Submit False 3 10 95]"
  have "\<exists>s1. run ?ops1 engine_init [] = Some (Inr (s1, [])) \<and>
     sideOrders True (tickers s1 3) 0 = Some (new_Order True 3 30 100 0)"
    by (simp add: eval_defs sideOrders_def)
  then obtain s1 where s1: "run ?ops1 engine_init [] = Some (Inr (s1, []))"
     "sideOrders True (tickers s1 3) 0 = Some (new_Order True 3 30 100 0)" by blast
  have "\<exists>s2 out2. run (?ops1 @ [Match 3]) engine_init [] = Some (Inr (s2, out2))"
    by (simp add: eval_defs)
  then obtain s2 out2 where "run (?ops1 @ [Match 3]) engine_init [] = Some (Inr (s2, out2))"
    by blast
  with s1(1) have s2: "run [Match 3] s1 [] = Some (Inr (s2, out2))"
    by (simp only: run_append) simp
  from quantity_never_increases[OF s1(1) s2 s1(2)] s1 s2 show ?thesis by blast
qed

section \<open>A pass on a book with more submissions than slots\<close>

text \<open>
  After 1025 buy submissions and one sell of 7 shares at 50.0 on instrument 0, the buy
  counter is 1025, the sell counter 1, and the sell order rests in sell slot 0.
\<close>

lemma overflowed_book:
  "\<exists>s. run (submits True 0 (replicate 1025 (1, 10)) @ [Submit False 0 7 50]) engine_init []
          = Some (Inr (s, [])) \<and>
       sint (buyCount (tickers s 0)) = 1025 \<and> sint (sellCount (tickers s 0)) = 1 \<and>
       sellOrders (tickers s 0) 0 = Some (new_Order False 0 7 50 1025)"
proof -
  have tk: "uint (0 :: uint16) < NUM_TICKERS" by (simp add: NUM_TICKERS_def)
  have c0: "sideCount True (tickers engine_init (unat (0 :: uint16))) = 0"
    by (rule engine_init_count)
  have "length (replicate 1025 (1 :: uint32, 10 :: real)) \<le> 2 ^ 31" by simp
  from run_submits[OF tk c0 this, of "[]"] obtain s1 where
    r: "run (submits True 0 (replicate 1025 (1, 10))) engine_init [] = Some (Inr (s1, []))"
    and g: "globalTimestamp s1 = globalTimestamp engine_init + of_nat (length (replicate 1025 (1 :: uint32, 10 :: real)))"
    and c: "sideCount True (tickers s1 (unat (0 :: uint16))) = of_nat (length (replicate 1025 (1 :: uint32, 10 :: real)))"
    and f: "sideCount (\<not> True) (tickers s1 (unat (0 :: uint16))) = sideCount (\<not> True) (tickers engine_init (unat (0 :: uint16)))"
           "sideOrders (\<not> True) (tickers s1 (unat (0 :: uint16))) = sideOrders (\<not> True) (tickers engine_init (unat (0 :: uint16)))"
    by blast
  from f(1) have sc: "sideCount False (tickers s1 (unat (0 :: uint16))) = 0"
    by (simp add: engine_init_count)
  then have nonneg: "0 \<le> sint (sideCount False (tickers s1 (unat (0 :: uint16))))" by simp
  from addOrder_accepted[OF tk nonneg, of 7 50] obtain s2 where
    a: "addOrder False 0 7 50 s1 = Inr s2"
    and c2: "sideCount False (tickers s2 (unat (0 :: uint16))) = sideCount False (tickers s1 (unat (0 :: uint16))) + 1"
    and o2: "sideOrders False (tickers s2 (unat (0 :: uint16))) =
       (if sint (sideCount False (tickers s1 (unat (0 :: uint16)))) < MAX_ORDERS_PER_SIDE
        then (sideOrders False (tickers s1 (unat (0 :: uint16))))
               (nat (sint (sideCount False (tickers s1 (unat (0 :: uint16))))) \<mapsto>
                  new_Order False (ucast (0 :: uint16)) 7 50 (ucast (globalTimestamp s1)))
        else sideOrders False (tickers s1 (unat (0 :: uint16))))"
    and f2: "sideCount (\<not> False) (tickers s2 (unat (0 :: uint16))) = sideCount (\<not> False) (tickers s1 (unat (0 :: uint16)))"
    by blast
  have 1: "run (submits True 0 (replicate 1025 (1, 10)) @ [Submit False 0 7 50]) engine_init [] = Some (Inr (s2, []))"
    using r a by (simp add: run_append)
  have 2: "sint (buyCount (tickers s2 0)) = 1025"
    using f2 c by (simp add: sideCount_def)
  have 3: "sint (sellCount (tickers s2 0)) = 1"
    using c2 sc by (simp add: sideCount_def)
  have 4: "sellOrders (tickers s2 0) 0 = Some (new_Order False 0 7 50 1025)"
    using o2 sc g by (simp add: sideOrders_def MAX_ORDERS_PER_SIDE_def engine_init_def)
  from 1 2 3 4 show ?thesis by blast
qed

text \<open>
  Claim C9 fails on the code. That book has finitely many resting orders, and the pass on
  it does not reach its exit: the buy scan of the first iteration reads \<open>buyOrders[1024]\<close>,
  behind the array, where the behaviour of the source is undefined.
\<close>

theorem pass_on_overflowed_book:
  "(case run (submits True 0 (replicate 1025 (1, 10)) @ [Submit False 0 7 50]) engine_init [] of
      Some (Inr (s, out)) \<Rightarrow>
        sint (buyCount (tickers s 0)) = 1025 \<and>
        holds (sellOrders (tickers s 0)) 0 (new_Order False 0 7 50 1025) \<and>
        matchOrdersForTicker 0 s = Some (Inl OutOfBounds)
    | _ \<Rightarrow> False)"
proof -
  from overflowed_book obtain s where s:
    "run (submits True 0 (replicate 1025 (1, 10)) @ [Submit False 0 7 50]) engine_init []
          = Some (Inr (s, []))"
    "sint (buyCount (tickers s 0)) = 1025"
    "sellOrders (tickers s 0) 0 = Some (new_Order False 0 7 50 1025)"
    by blast
  from s(2) have "MAX_ORDERS_PER_SIDE < sint (buyCount (tickers s 0)) \<or>
      MAX_ORDERS_PER_SIDE < sint (sellCount (tickers s 0))"
    by (simp add: MAX_ORDERS_PER_SIDE_def)
  from matchLoop_oob[OF this] have "matchOrdersForTicker 0 s = Some (Inl OutOfBounds)"
    by (simp add: matchOrdersForTicker_def NUM_TICKERS_def)
  moreover from s(3) have "holds (sellOrders (tickers s 0)) 0 (new_Order False 0 7 50 1025)"
    by (simp add: holds_def new_Order_def)
  ultimately show ?thesis using s(1,2) by simp
qed

text \<open>
  Claim C8 fails on the code. In the run of these submissions and one pass, the sell order
  rests with quantity 7 when the pass starts, and the pass leaves the arrays: from there
  nothing bounds what is done to that quantity.
\<close>

theorem run_on_overflowed_book:
  "(case run (submits True 0 (replicate 1025 (1, 10)) @ [Submit False 0 7 50]) engine_init [] of
      Some (Inr (s, out)) \<Rightarrow>
        map_option quantity (sellOrders (tickers s 0) 0) = Some 7 \<and>
        run [Match 0] s out = Some (Inl OutOfBounds)
    | _ \<Rightarrow> False) \<and>
   run (submits True 0 (replicate 1025 (1, 10)) @ [Submit False 0 7 50, Match 0]) engine_init []
     = Some (Inl OutOfBounds)"
proof -
  from overflowed_book obtain s where s:
    "run (submits True 0 (replicate 1025 (1, 10)) @ [Submit False 0 7 50]) engine_init []
          = Some (Inr (s, []))"
    "sint (buyCount (tickers s 0)) = 1025"
    "sellOrders (tickers s 0) 0 = Some (new_Order False 0 7 50 1025)"
    by blast
  from s(2) have "MAX_ORDERS_PER_SIDE < sint (buyCount (tickers s 0)) \<or>
      MAX_ORDERS_PER_SIDE < sint (sellCount (tickers s 0))"
    by (simp add: MAX_ORDERS_PER_SIDE_def)
  from matchLoop_oob[OF this] have m: "matchOrdersForTicker 0 s = Some (Inl OutOfBounds)"
    by (simp add: matchOrdersForTicker_def NUM_TICKERS_def)
  have q: "map_option quantity (sellOrders (tickers s 0) 0) = Some 7"
    using s(3) by (simp add: new_Order_def)
  have "run ((submits True 0 (replicate 1025 (1, 10)) @ [Submit False 0 7 50]) @ [Match 0]) engine_init []
     = Some (Inl OutOfBounds)"
    using s(1) m by (simp only: run_append) simp
  then have "run (submits True 0 (replicate 1025 (1, 10)) @ [Submit False 0 7 50, Match 0]) engine_init []
     = Some (Inl OutOfBounds)" by simp
  with s(1) m q show ?thesis by simp
qed

text \<open>
  Claim C4 fails on the code. On that book the sell scan selects the sell order in slot 0
  at price 50, while the buy scan leaves the buy array at index 1024: what the source
  takes as the best buy there is no order of the buy side, and the iteration is not a
  cross of the best buy with the best sell.
\<close>

theorem cross_on_overflowed_book:
  "(case run (submits True 0 (replicate 1025 (1, 10)) @ [Submit False 0 7 50]) engine_init [] of
      Some (Inr (s, out)) \<Rightarrow>
        scanBuy (tickers s 0) (sint (buyCount (tickers s 0))) 0 None (- 1) = Inl OutOfBounds \<and>
        scanSell (tickers s 0) (sint (sellCount (tickers s 0))) 0 None 1000000000 = Inr (Some 0, 50) \<and>
        matchIteration 0 (tickers s 0) = Inl OutOfBounds
    | _ \<Rightarrow> False)"
proof -
  from overflowed_book obtain s where s:
    "run (submits True 0 (replicate 1025 (1, 10)) @ [Submit False 0 7 50]) engine_init []
          = Some (Inr (s, []))"
    "sint (buyCount (tickers s 0)) = 1025" "sint (sellCount (tickers s 0)) = 1"
    "sellOrders (tickers s 0) 0 = Some (new_Order False 0 7 50 1025)"
    by blast
  from s(2) have gt: "MAX_ORDERS_PER_SIDE < sint (buyCount (tickers s 0))"
    by (simp add: MAX_ORDERS_PER_SIDE_def)
  then have b: "scanBuy (tickers s 0) (sint (buyCount (tickers s 0))) 0 None (- 1) = Inl OutOfBounds"
    by (intro scanBuy_oob) (simp_all add: MAX_ORDERS_PER_SIDE_def)
  have a: "scanSell (tickers s 0) (sint (sellCount (tickers s 0))) 0 None 1000000000 = Inr (Some 0, 50)"
    using s(3,4) by (simp add: scanSell.simps MAX_ORDERS_PER_SIDE_def new_Order_def)
  from gt have "matchIteration 0 (tickers s 0) = Inl OutOfBounds"
    by (intro matchIteration_oob) simp
  with s(1) a b show ?thesis by simp
qed

end
